theory Spec2Isabelle
  imports Main
begin

section \<open>Data model of the WebSocket hub (package websocket)\<close>

text \<open>
  A \<open>uuid.UUID\<close> is a 16-byte value that the hub only compares for equality;
  \<open>uuid.Nil\<close> is the all-zero value.  Time is counted in nanoseconds, as
  \<open>time.Duration\<close> does.  A serialised event is a byte string.
\<close>

type_synonym uuid = nat
type_synonym bytes = string
type_synonym time = int

definition uuid_Nil :: uuid where
  "uuid_Nil = 0"

definition Second :: time where
  "Second = 1000000000"

definition Minute :: time where
  "Minute = 60 * Second"

definition writeWait :: time where
  "writeWait = 10 * Second"

definition pongWait :: time where
  "pongWait = 60 * Second"

definition pingPeriod :: time where
  "pingPeriod = (pongWait * 9) div 10"

definition maxMessageSize :: nat where
  "maxMessageSize = 10 * 1024 * 1024"

definition sendBufferSize :: nat where
  "sendBufferSize = 256"

definition unregisterBufferSize :: nat where
  \<comment> \<open>\<open>unregister: make(chan *Client, 64)\<close> in \<open>NewHub\<close>\<close>
  "unregisterBufferSize = 64"

text \<open>
  The hub stores \<open>*Client\<close> pointers and compares them by address.  A value of
  type \<open>Client\<close> is such a pointer together with the fields that \<open>NewClient\<close>
  sets and nothing changes afterwards: \<open>addr\<close> is the address, \<open>id_c\<close> the
  field \<open>id\<close>, \<open>hasHandler\<close> tells whether \<open>messageHandler\<close> is non-nil.
  The fields that do change (\<open>send\<close>, \<open>lastActivity\<close>, the connection and the
  context) live in the store of the state below, indexed by the client.
\<close>

record Client =
  addr :: nat
  id_c :: string
  userID :: uuid
  conversationID :: uuid
  hasHandler :: bool

text \<open>
  A buffered Go channel \<open>chan []byte\<close> of capacity \<open>sendBufferSize\<close>: the
  items waiting in the buffer, oldest first, and whether \<open>close\<close> was called.
\<close>

record chan =
  buf :: "bytes list"
  closed :: bool

datatype panic = SendOnClosedChannel | CloseOfClosedChannel

definition make_chan :: chan where
  "make_chan = \<lparr>buf = [], closed = False\<rparr>"

definition chan_close :: "chan \<Rightarrow> panic + chan" where
  "chan_close ch = (if closed ch then Inl CloseOfClosedChannel else Inr (ch\<lparr>closed := True\<rparr>))"

text \<open>
  \<open>select { case ch <- data: ... default: ... }\<close>: the send happens when the buffer
  has room (\<open>Some\<close> of the new channel), the default branch is taken when it is full
  (\<open>None\<close>), and a send on a closed channel panics.
\<close>

definition chan_try_send :: "bytes \<Rightarrow> chan \<Rightarrow> panic + chan option" where
  "chan_try_send data ch =
     (if closed ch then Inl SendOnClosedChannel
      else if length (buf ch) < sendBufferSize then Inr (Some (ch\<lparr>buf := buf ch @ [data]\<rparr>))
      else Inr None)"

text \<open>
  The state: the two tables of \<open>Hub\<close> (a Go \<open>map[*Client]bool\<close> whose values are
  always \<open>true\<close> is the set of its keys), the buffer of the channel \<open>unregister\<close>
  (oldest first; at most \<open>unregisterBufferSize\<close> clients), the hub's context, whether
  \<open>Run\<close> has returned, the goroutines started by \<open>go h.unregisterClient(client)\<close>
  that have not yet run, and the mutable fields of every client.  \<open>wire c\<close> is what the write pump
  of \<open>c\<close> has written to its connection: one entry per WebSocket frame, each the
  queue items put into that frame.
\<close>

record state =
  clients :: "uuid \<rightharpoonup> Client set"
  conversations :: "uuid \<rightharpoonup> Client set"
  unregister :: "Client list"
  hub_ctx_done :: bool
  hub_stopped :: bool
  go_unregister :: "Client list"
  send :: "Client \<Rightarrow> chan"
  lastActivity :: "Client \<Rightarrow> time"
  readDeadline :: "Client \<Rightarrow> time"
  ctx_done :: "Client \<Rightarrow> bool"
  conn_closed :: "Client \<Rightarrow> bool"
  wire :: "Client \<Rightarrow> bytes list list"

definition NewHub :: "state \<Rightarrow> state" where
  \<comment> \<open>A fresh hub beside the clients of the given store: both tables and the channel
      empty, context live.\<close>
  "NewHub s = s\<lparr>clients := Map.empty, conversations := Map.empty, unregister := [],
                 hub_ctx_done := False, hub_stopped := False, go_unregister := []\<rparr>"

section \<open>Hub.registerClient and Hub.unregisterClient\<close>

definition add_member :: "uuid \<Rightarrow> Client \<Rightarrow> (uuid \<rightharpoonup> Client set) \<Rightarrow> (uuid \<rightharpoonup> Client set)" where
  \<comment> \<open>\<open>if t[k] == nil { t[k] = make(...) }; t[k][client] = true\<close>\<close>
  "add_member k client t =
     (case t k of None \<Rightarrow> t(k \<mapsto> {client}) | Some cs \<Rightarrow> t(k \<mapsto> insert client cs))"

definition remove_member :: "uuid \<Rightarrow> Client \<Rightarrow> Client set \<Rightarrow> (uuid \<rightharpoonup> Client set) \<Rightarrow> (uuid \<rightharpoonup> Client set)" where
  \<comment> \<open>\<open>delete(cs, client); if len(cs) == 0 { delete(t, k) }\<close> for the inner map \<open>cs\<close> of \<open>t[k]\<close>\<close>
  "remove_member k client cs t =
     (if cs - {client} = {} then t(k := None) else t(k \<mapsto> cs - {client}))"

definition registerClient :: "Client \<Rightarrow> state \<Rightarrow> state" where
  "registerClient client h =
     (let h1 = h\<lparr>clients := add_member (userID client) client (clients h)\<rparr>
      in if conversationID client \<noteq> uuid_Nil
         then h1\<lparr>conversations := add_member (conversationID client) client (conversations h1)\<rparr>
         else h1)"

definition unregister_room :: "Client \<Rightarrow> state \<Rightarrow> state" where
  \<comment> \<open>the second block of \<open>unregisterClient\<close>, the one on \<open>h.conversations\<close>\<close>
  "unregister_room client h =
     (if conversationID client \<noteq> uuid_Nil
      then (case conversations h (conversationID client) of
              Some cs \<Rightarrow> h\<lparr>conversations := remove_member (conversationID client) client cs (conversations h)\<rparr>
            | None \<Rightarrow> h)
      else h)"

definition unregisterClient :: "Client \<Rightarrow> state \<Rightarrow> panic + state" where
  "unregisterClient client h =
     (case clients h (userID client) of
        Some cs \<Rightarrow>
          if client \<in> cs
          then (case chan_close (send h client) of
                  Inl e \<Rightarrow> Inl e
                | Inr ch \<Rightarrow>
                    Inr (unregister_room client
                      (h\<lparr>send := (send h)(client := ch),
                         clients := remove_member (userID client) client cs (clients h)\<rparr>)))
          else Inr (unregister_room client h)
      | None \<Rightarrow> Inr (unregister_room client h))"

text \<open>A sequence of register and unregister commands, in the order the hub runs them.\<close>

datatype reg_op = Register Client | Unregister Client

fun run_ops :: "reg_op list \<Rightarrow> state \<Rightarrow> panic + state" where
  "run_ops [] h = Inr h"
| "run_ops (Register c # ops) h = run_ops ops (registerClient c h)"
| "run_ops (Unregister c # ops) h =
     (case unregisterClient c h of Inl e \<Rightarrow> Inl e | Inr h' \<Rightarrow> run_ops ops h')"

fun registered_of :: "reg_op list \<Rightarrow> Client list" where
  "registered_of [] = []"
| "registered_of (Register c # ops) = c # registered_of ops"
| "registered_of (Unregister c # ops) = registered_of ops"

text \<open>\<open>member_of t k c\<close>: the table \<open>t\<close> has an entry for \<open>k\<close> and \<open>c\<close> is in it.\<close>

definition member_of :: "(uuid \<rightharpoonup> Client set) \<Rightarrow> uuid \<Rightarrow> Client \<Rightarrow> bool" where
  "member_of t k c \<longleftrightarrow> (case t k of None \<Rightarrow> False | Some cs \<Rightarrow> c \<in> cs)"

definition is_registered :: "state \<Rightarrow> Client \<Rightarrow> bool" where
  "is_registered h c \<longleftrightarrow> member_of (clients h) (userID c) c"

definition in_room :: "state \<Rightarrow> Client \<Rightarrow> bool" where
  "in_room h c \<longleftrightarrow> member_of (conversations h) (conversationID c) c"

text \<open>What the specification says about the two tables.\<close>

definition no_empty_entry :: "(uuid \<rightharpoonup> Client set) \<Rightarrow> bool" where
  "no_empty_entry t \<longleftrightarrow> (\<forall>k. t k \<noteq> Some {})"

definition room_in_identity :: "state \<Rightarrow> bool" where
  "room_in_identity h \<longleftrightarrow>
     (\<forall>r c. member_of (conversations h) r c \<longrightarrow> member_of (clients h) (userID c) c)"

definition room_non_nil :: "state \<Rightarrow> bool" where
  "room_non_nil h \<longleftrightarrow>
     (\<forall>r c. member_of (conversations h) r c \<longrightarrow> conversationID c = r \<and> conversationID c \<noteq> uuid_Nil)"

definition tables_inv :: "state \<Rightarrow> bool" where
  "tables_inv h \<longleftrightarrow>
     no_empty_entry (clients h) \<and> no_empty_entry (conversations h) \<and>
     room_in_identity h \<and> room_non_nil h"

text \<open>What the proofs need besides: a client is filed under its own identity, and the
  queue of a registered client is open.\<close>

definition identity_keyed :: "state \<Rightarrow> bool" where
  "identity_keyed h \<longleftrightarrow> (\<forall>u c. member_of (clients h) u c \<longrightarrow> userID c = u)"

definition registered_open :: "state \<Rightarrow> bool" where
  "registered_open h \<longleftrightarrow> (\<forall>u c. member_of (clients h) u c \<longrightarrow> \<not> closed (send h c))"

definition hub_inv :: "state \<Rightarrow> bool" where
  "hub_inv h \<longleftrightarrow> tables_inv h \<and> identity_keyed h \<and> registered_open h"

section \<open>Broadcast and direct delivery\<close>

text \<open>
  \<open>Message\<close> is an \<open>interface{}\<close> in the source; its type is a parameter here, and
  so is \<open>json.Marshal\<close> on it, which fails on some values (\<open>None\<close>).
\<close>

record 'm BroadcastMessage =
  ConversationID :: uuid
  UserID :: uuid
  Message :: 'm
  ExcludeClient :: "Client option"

text \<open>
  What a function does besides changing the state, in program order: calls of
  \<open>json.Marshal\<close>, items put on a queue, goroutines started, calls into the router
  (\<open>MessageHandler\<close>), commands sent to the hub, and the log lines the claims mention.
\<close>

record IncomingMessage =
  in_Type :: string
  in_Content :: string
  in_ConversationID :: uuid
  in_AttachmentIDs :: "uuid list"

datatype effect =
    JSONMarshal
  | Sent Client bytes
  | LogChannelFull Client
  | GoUnregisterClient Client
  | SubmitUnregister Client
  | ConnClose Client
  | CtxCancel Client
  | HandleMessage Client IncomingMessage
  | HandleTyping Client
  | HandleDisconnect Client
  | SendErrorCall Client string
  | WriteCloseMessage Client
  | WritePing Client

text \<open>
  Go ranges over a map in an order of its own choosing.  The order in which a
  \<open>for client := range clients\<close> yields the keys is an argument of the model, and
  \<open>ranges cs ord\<close> says that \<open>ord\<close> is such an order for the key set \<open>cs\<close>.
\<close>

definition ranges :: "Client set \<Rightarrow> Client list \<Rightarrow> bool" where
  "ranges cs ord \<longleftrightarrow> distinct ord \<and> set ord = cs"

fun broadcast_loop :: "bytes \<Rightarrow> Client option \<Rightarrow> Client list \<Rightarrow> effect list \<times> state \<Rightarrow> panic + effect list \<times> state" where
  "broadcast_loop data ex [] (tr, h) = Inr (tr, h)"
| "broadcast_loop data ex (client # rest) (tr, h) =
     (if ex \<noteq> None \<and> Some client = ex then broadcast_loop data ex rest (tr, h)
      else (case chan_try_send data (send h client) of
              Inl e \<Rightarrow> Inl e
            | Inr (Some ch) \<Rightarrow>
                broadcast_loop data ex rest (tr @ [Sent client data], h\<lparr>send := (send h)(client := ch)\<rparr>)
            | Inr None \<Rightarrow>
                broadcast_loop data ex rest
                  (tr @ [LogChannelFull client, GoUnregisterClient client],
                   h\<lparr>go_unregister := go_unregister h @ [client]\<rparr>)))"

definition broadcastMessage :: "('m \<Rightarrow> bytes option) \<Rightarrow> Client list \<Rightarrow> 'm BroadcastMessage \<Rightarrow> state \<Rightarrow> panic + effect list \<times> state" where
  "broadcastMessage marshal ord broadcast h =
     (case marshal (Message broadcast) of
        None \<Rightarrow> Inr ([JSONMarshal], h)
      | Some data \<Rightarrow>
          (case conversations h (ConversationID broadcast) of
             Some cs \<Rightarrow> broadcast_loop data (ExcludeClient broadcast) ord ([JSONMarshal], h)
           | None \<Rightarrow> Inr ([JSONMarshal], h)))"

fun to_user_loop :: "bytes \<Rightarrow> Client list \<Rightarrow> effect list \<times> state \<Rightarrow> panic + effect list \<times> state" where
  "to_user_loop data [] (tr, h) = Inr (tr, h)"
| "to_user_loop data (client # rest) (tr, h) =
     (case chan_try_send data (send h client) of
        Inl e \<Rightarrow> Inl e
      | Inr (Some ch) \<Rightarrow>
          to_user_loop data rest (tr @ [Sent client data], h\<lparr>send := (send h)(client := ch)\<rparr>)
      | Inr None \<Rightarrow> to_user_loop data rest (tr @ [LogChannelFull client], h))"

definition BroadcastToUser :: "('m \<Rightarrow> bytes option) \<Rightarrow> Client list \<Rightarrow> uuid \<Rightarrow> 'm \<Rightarrow> state \<Rightarrow> panic + effect list \<times> state" where
  "BroadcastToUser marshal ord user message h =
     (case marshal message of
        None \<Rightarrow> Inr ([JSONMarshal], h)
      | Some data \<Rightarrow>
          (case clients h user of
             Some cs \<Rightarrow> to_user_loop data ord ([JSONMarshal], h)
           | None \<Rightarrow> Inr ([JSONMarshal], h)))"

section \<open>Blocking sends: Client.SendMessage, Client.SendError, Hub.SendToClient\<close>

text \<open>
  A blocking \<open>select\<close> waits until one of its cases can proceed and then takes one
  of those that can, at random.  The model looks at the select at one moment:
  \<open>waited\<close> is the time since the select was entered (its 5 second timer was started
  then), the list is the order in which the runtime would prefer the cases at that
  moment, and the result is \<open>None\<close> when no case can proceed yet, that is, when the
  goroutine is still blocked.  A send on a closed channel can proceed: it panics.
\<close>

datatype sel_case = CaseSend | CaseTimer | CaseDone

type_synonym select_env = "time \<times> sel_case list"

definition send_ready :: "chan \<Rightarrow> bool" where
  "send_ready ch \<longleftrightarrow> closed ch \<or> length (buf ch) < sendBufferSize"

definition timer_ready :: "time \<Rightarrow> bool" where
  "timer_ready waited \<longleftrightarrow> 5 * Second \<le> waited"

definition select_pick :: "(sel_case \<Rightarrow> bool) \<Rightarrow> sel_case list \<Rightarrow> sel_case option" where
  "select_pick ready prefer = find ready (prefer @ [CaseSend, CaseTimer, CaseDone])"

text \<open>
  Modelled from the spec: \<open>models.WebSocketMessage\<close> and \<open>models.NewWebSocketMessage\<close>
  are in package \<open>internal/models\<close>, which is not among the sources; the fields are
  those of the outbound wire frame of the specification.
\<close>

record WebSocketMessage =
  ws_Type :: string
  ws_ConversationID :: uuid
  ws_MessageID :: uuid
  ws_Role :: string
  ws_Content :: string
  ws_Delta :: string
  ws_Error :: string

definition NewWebSocketMessage :: "string \<Rightarrow> uuid \<Rightarrow> uuid \<Rightarrow> WebSocketMessage" where
  "NewWebSocketMessage t conv mid =
     \<lparr>ws_Type = t, ws_ConversationID = conv, ws_MessageID = mid, ws_Role = [],
      ws_Content = [], ws_Delta = [], ws_Error = []\<rparr>"

definition MessageTypeError :: string where
  "MessageTypeError = ''error''"

text \<open>
  The result of a function that returns an \<open>error\<close>: nil, an error with its text, or
  no result yet because the goroutine is still blocked.  Where the error of
  \<open>json.Marshal\<close> is returned to the caller, the serialiser is a parameter that gives
  the text of that error (\<open>Inl\<close>) or the bytes (\<open>Inr\<close>).
\<close>

datatype send_result = SendNil | SendErr string | SendBlocked

definition enqueue :: "Client \<Rightarrow> bytes \<Rightarrow> state \<Rightarrow> state" where
  "enqueue c data h = h\<lparr>send := (send h)(c := (send h c)\<lparr>buf := buf (send h c) @ [data]\<rparr>)\<rparr>"

definition SendMessage :: "(WebSocketMessage \<Rightarrow> string + bytes) \<Rightarrow> Client \<Rightarrow> WebSocketMessage \<Rightarrow> select_env \<Rightarrow> state \<Rightarrow> panic + send_result \<times> state" where
  "SendMessage marshal c message env h =
     (case marshal message of
        Inl err \<Rightarrow> Inr (SendErr (''failed to marshal message: '' @ err), h)
      | Inr data \<Rightarrow>
          (case select_pick
                  (\<lambda>k. case k of CaseSend \<Rightarrow> send_ready (send h c)
                               | CaseTimer \<Rightarrow> timer_ready (fst env)
                               | CaseDone \<Rightarrow> ctx_done h c)
                  (snd env) of
             None \<Rightarrow> Inr (SendBlocked, h)
           | Some CaseSend \<Rightarrow>
               if closed (send h c) then Inl SendOnClosedChannel else Inr (SendNil, enqueue c data h)
           | Some CaseTimer \<Rightarrow> Inr (SendErr ''timeout sending message to client'', h)
           | Some CaseDone \<Rightarrow> Inr (SendErr ''client context cancelled'', h)))"

definition SendError :: "(WebSocketMessage \<Rightarrow> string + bytes) \<Rightarrow> Client \<Rightarrow> string \<Rightarrow> select_env \<Rightarrow> state \<Rightarrow> panic + send_result \<times> state" where
  \<comment> \<open>\<open>SendError\<close> returns nothing; the result of its \<open>SendMessage\<close> is kept to tell
      a return (\<open>SendNil\<close>, or \<open>SendErr\<close>, which it only logs) from a goroutine still blocked\<close>
  "SendError marshal c errorMsg env h =
     SendMessage marshal c
       ((NewWebSocketMessage MessageTypeError (conversationID c) uuid_Nil)\<lparr>ws_Error := errorMsg\<rparr>) env h"

definition SendToClient :: "('m \<Rightarrow> string + bytes) \<Rightarrow> Client \<Rightarrow> 'm \<Rightarrow> select_env \<Rightarrow> state \<Rightarrow> panic + send_result \<times> state" where
  "SendToClient marshal client message env h =
     (case marshal message of
        Inl err \<Rightarrow> Inr (SendErr err, h)
      | Inr data \<Rightarrow>
          (case select_pick
                  (\<lambda>k. case k of CaseSend \<Rightarrow> send_ready (send h client)
                               | CaseTimer \<Rightarrow> timer_ready (fst env)
                               | CaseDone \<Rightarrow> False)
                  (snd env) of
             None \<Rightarrow> Inr (SendBlocked, h)
           | Some CaseSend \<Rightarrow>
               if closed (send h client) then Inl SendOnClosedChannel
               else Inr (SendNil, enqueue client data h)
           | Some CaseTimer \<Rightarrow> Inr (SendErr ''timeout sending to client'', h)
           | Some CaseDone \<Rightarrow> Inr (SendBlocked, h)))"

section \<open>Sweep, shutdown and the command loop Hub.Run\<close>

text \<open>
  The nested \<open>range\<close> over \<open>h.clients\<close> and its inner maps visits every pair of a key
  and a member once, in some order.
\<close>

definition ranges_table :: "(uuid \<rightharpoonup> Client set) \<Rightarrow> (uuid \<times> Client) list \<Rightarrow> bool" where
  "ranges_table t ord \<longleftrightarrow> distinct ord \<and> (\<forall>u c. (u, c) \<in> set ord \<longleftrightarrow> member_of t u c)"

definition cleanupStaleConnections :: "time \<Rightarrow> (uuid \<times> Client) list \<Rightarrow> state \<Rightarrow> effect list \<times> state" where
  "cleanupStaleConnections now ord h =
     (let staleThreshold = 5 * Minute;
          staleClients = filter (\<lambda>client. now - lastActivity h client > staleThreshold) (map snd ord)
      in (map GoUnregisterClient staleClients,
          h\<lparr>go_unregister := go_unregister h @ staleClients\<rparr>))"

fun close_all :: "Client list \<Rightarrow> state \<Rightarrow> panic + state" where
  "close_all [] h = Inr h"
| "close_all (client # rest) h =
     (case chan_close (send h client) of
        Inl e \<Rightarrow> Inl e
      | Inr ch \<Rightarrow> close_all rest (h\<lparr>send := (send h)(client := ch)\<rparr>))"

definition cleanup :: "(uuid \<times> Client) list \<Rightarrow> state \<Rightarrow> panic + state" where
  "cleanup ord h =
     (case close_all (map snd ord) h of
        Inl e \<Rightarrow> Inl e
      | Inr h' \<Rightarrow> Inr (h'\<lparr>clients := Map.empty, conversations := Map.empty\<rparr>))"

definition Shutdown :: "state \<Rightarrow> state" where
  \<comment> \<open>\<open>h.cancel()\<close>\<close>
  "Shutdown h = h\<lparr>hub_ctx_done := True\<rparr>"

text \<open>
  One turn of the \<open>select\<close> in \<open>Run\<close>: the case that was taken, with the order of the
  ranges it makes.  \<open>CtxDone\<close> can only be taken once the context is cancelled; then
  \<open>Run\<close> returns and its deferred \<open>cleanup\<close> runs.  After that nothing is received.
  \<open>UnregisterCmd\<close> can only be taken when the channel \<open>unregister\<close> holds a client,
  and it receives the oldest one.  The clients received from \<open>register\<close> and the
  messages received from \<open>broadcast\<close> come with the command.
\<close>

datatype 'm command =
    CtxDone "(uuid \<times> Client) list"
  | RegisterCmd Client
  | UnregisterCmd
  | BroadcastCmd "'m BroadcastMessage" "Client list"
  | CleanupTick time "(uuid \<times> Client) list"
  | StatsTick

definition Run_step :: "('m \<Rightarrow> bytes option) \<Rightarrow> 'm command \<Rightarrow> state \<Rightarrow> panic + effect list \<times> state" where
  "Run_step marshal cmd h =
     (if hub_stopped h then Inr ([], h)
      else (case cmd of
              CtxDone ord \<Rightarrow>
                if hub_ctx_done h
                then (case cleanup ord h of Inl e \<Rightarrow> Inl e | Inr h' \<Rightarrow> Inr ([], h'\<lparr>hub_stopped := True\<rparr>))
                else Inr ([], h)
            | RegisterCmd client \<Rightarrow> Inr ([], registerClient client h)
            | UnregisterCmd \<Rightarrow>
                (case unregister h of
                   [] \<Rightarrow> Inr ([], h)
                 | client # rest \<Rightarrow>
                     (case unregisterClient client (h\<lparr>unregister := rest\<rparr>) of
                        Inl e \<Rightarrow> Inl e | Inr h' \<Rightarrow> Inr ([], h')))
            | BroadcastCmd message ord \<Rightarrow> broadcastMessage marshal ord message h
            | CleanupTick now ord \<Rightarrow> Inr (cleanupStaleConnections now ord h)
            | StatsTick \<Rightarrow> Inr ([], h)))"

section \<open>The write pump\<close>

text \<open>
  The body of \<open>case message, ok := <-c.send\<close>.  The two booleans say whether
  \<open>NextWriter\<close> and the writer's \<open>Close\<close> succeed.  The result tells whether the loop
  goes on.  With an empty open queue the case cannot be taken and nothing happens.
\<close>

definition set_buf :: "Client \<Rightarrow> bytes list \<Rightarrow> state \<Rightarrow> state" where
  "set_buf c items h = h\<lparr>send := (send h)(c := (send h c)\<lparr>buf := items\<rparr>)\<rparr>"

definition WritePump_send :: "Client \<Rightarrow> bool \<Rightarrow> bool \<Rightarrow> state \<Rightarrow> effect list \<times> bool \<times> state" where
  "WritePump_send c writer_ok close_ok h =
     (case buf (send h c) of
        [] \<Rightarrow> if closed (send h c) then ([WriteCloseMessage c], False, h) else ([], True, h)
      | message # queued \<Rightarrow>
          if \<not> writer_ok then ([], False, set_buf c queued h)
          else if \<not> close_ok then ([], False, set_buf c [] h)
          else ([], True, (set_buf c [] h)\<lparr>wire := (wire h)(c := wire h c @ [message # queued])\<rparr>))"

definition frame_bytes :: "bytes list \<Rightarrow> bytes" where
  \<comment> \<open>the bytes of one frame: the first item, then a newline and an item for each further one\<close>
  "frame_bytes items = (case items of [] \<Rightarrow> [] | m # ms \<Rightarrow> m @ concat (map (\<lambda>x. CHR 0x0A # x) ms))"

datatype wp_event = WDone | WRecv bool bool | WTick bool

datatype pump_status = Returned | Stuck | Crashed panic

definition WritePump_defer :: "Client \<Rightarrow> state \<Rightarrow> effect list \<times> state" where
  "WritePump_defer c h =
     ([ConnClose c, CtxCancel c],
      h\<lparr>conn_closed := (conn_closed h)(c := True), ctx_done := (ctx_done h)(c := True)\<rparr>)"

fun WritePump_loop :: "Client \<Rightarrow> wp_event list \<Rightarrow> state \<Rightarrow> effect list \<times> pump_status \<times> state" where
  "WritePump_loop c [] h = ([], Stuck, h)"
| "WritePump_loop c (WDone # es) h =
     (if ctx_done h c then ([], Returned, h) else WritePump_loop c es h)"
| "WritePump_loop c (WRecv writer_ok close_ok # es) h =
     (case WritePump_send c writer_ok close_ok h of
        (tr, True, h1) \<Rightarrow> (case WritePump_loop c es h1 of (tr2, st, h2) \<Rightarrow> (tr @ tr2, st, h2))
      | (tr, False, h1) \<Rightarrow> (tr, Returned, h1))"
| "WritePump_loop c (WTick ping_ok # es) h =
     (if ping_ok
      then (case WritePump_loop c es h of (tr2, st, h2) \<Rightarrow> (WritePing c # tr2, st, h2))
      else ([], Returned, h))"

definition WritePump :: "Client \<Rightarrow> wp_event list \<Rightarrow> state \<Rightarrow> effect list \<times> pump_status \<times> state" where
  "WritePump c es h =
     (case WritePump_loop c es h of
        (tr, Stuck, h1) \<Rightarrow> (tr, Stuck, h1)
      | (tr, st, h1) \<Rightarrow> (case WritePump_defer c h1 of (tr2, h2) \<Rightarrow> (tr @ tr2, st, h2)))"

section \<open>The whole system, one critical section at a time\<close>

text \<open>
  Every function of the hub that touches the tables holds \<open>h.mu\<close> from its first
  statement to its return (the section on the mutex below follows the calls statement
  by statement).  Here one run of such a function is one step.  A step is taken by the
  command loop, by a goroutine that the loop started with
  \<open>go h.unregisterClient(client)\<close>, by a write pump, or by some other goroutine that
  calls \<open>BroadcastToUser\<close> or \<open>Shutdown\<close>.
\<close>

datatype 'm step =
    Loop "'m command"
  | GoUnregister Client
  | WriteSend Client bool bool
  | ToUser uuid 'm "Client list"
  | CallShutdown

datatype actor = CommandLoop | SpawnedGoroutine | WritePumpOf Client | Caller

fun actor_of :: "'m step \<Rightarrow> actor" where
  "actor_of (Loop cmd) = CommandLoop"
| "actor_of (GoUnregister c) = SpawnedGoroutine"
| "actor_of (WriteSend c a b) = WritePumpOf c"
| "actor_of (ToUser u m ord) = Caller"
| "actor_of CallShutdown = Caller"

definition sys_step :: "('m \<Rightarrow> bytes option) \<Rightarrow> 'm step \<Rightarrow> state \<Rightarrow> panic + effect list \<times> state" where
  "sys_step marshal st h =
     (case st of
        Loop cmd \<Rightarrow> Run_step marshal cmd h
      | GoUnregister c \<Rightarrow>
          if c \<in> set (go_unregister h)
          then (case unregisterClient c (h\<lparr>go_unregister := remove1 c (go_unregister h)\<rparr>) of
                  Inl e \<Rightarrow> Inl e | Inr h1 \<Rightarrow> Inr ([], h1))
          else Inr ([], h)
      | WriteSend c writer_ok close_ok \<Rightarrow>
          (case WritePump_send c writer_ok close_ok h of (tr, go_on, h1) \<Rightarrow> Inr (tr, h1))
      | ToUser u m ord \<Rightarrow> BroadcastToUser marshal ord u m h
      | CallShutdown \<Rightarrow> Inr ([], Shutdown h))"

fun exec :: "('m \<Rightarrow> bytes option) \<Rightarrow> 'm step list \<Rightarrow> effect list \<times> state \<Rightarrow> panic + effect list \<times> state" where
  "exec marshal [] (tr, h) = Inr (tr, h)"
| "exec marshal (st # sts) (tr, h) =
     (case sys_step marshal st h of
        Inl e \<Rightarrow> Inl e
      | Inr (tr2, h1) \<Rightarrow> exec marshal sts (tr @ tr2, h1))"

section \<open>The mutex \<open>h.mu\<close> and the calls in progress\<close>

text \<open>
  The functions of the hub that touch the tables start with \<open>h.mu.Lock()\<close> or
  \<open>h.mu.RLock()\<close> and defer the matching unlock.  Here a call of such a function is
  followed statement by statement: the lock, the body in two halves (for the functions
  that write both tables, the statements on \<open>h.clients\<close> and those on
  \<open>h.conversations\<close>), the unlock.  Between two statements of one call any other
  goroutine may run.  The halves of \<open>broadcastMessage\<close>, \<open>BroadcastToUser\<close> and
  \<open>cleanupStaleConnections\<close> are the whole body and nothing.
\<close>

datatype 'm call =
    CallRegister Client
  | CallUnregister Client
  | CallBroadcast "'m BroadcastMessage" "Client list"
  | CallToUser uuid 'm "Client list"
  | CallSweep time "(uuid \<times> Client) list"
  | CallCleanup "(uuid \<times> Client) list"

fun exclusive :: "'m call \<Rightarrow> bool" where
  \<comment> \<open>the call takes \<open>h.mu.Lock()\<close>, not \<open>h.mu.RLock()\<close>\<close>
  "exclusive (CallRegister c) = True"
| "exclusive (CallUnregister c) = True"
| "exclusive (CallBroadcast b ord) = False"
| "exclusive (CallToUser u m ord) = False"
| "exclusive (CallSweep now ord) = True"
| "exclusive (CallCleanup ord) = True"

definition call_first :: "('m \<Rightarrow> bytes option) \<Rightarrow> 'm call \<Rightarrow> state \<Rightarrow> panic + state" where
  "call_first marshal k h =
     (case k of
        CallRegister client \<Rightarrow>
          Inr (h\<lparr>clients := add_member (userID client) client (clients h)\<rparr>)
      | CallUnregister client \<Rightarrow>
          (case clients h (userID client) of
             Some cs \<Rightarrow>
               if client \<in> cs
               then (case chan_close (send h client) of
                       Inl e \<Rightarrow> Inl e
                     | Inr ch \<Rightarrow>
                         Inr (h\<lparr>send := (send h)(client := ch),
                                clients := remove_member (userID client) client cs (clients h)\<rparr>))
               else Inr h
           | None \<Rightarrow> Inr h)
      | CallBroadcast b ord \<Rightarrow>
          (case broadcastMessage marshal ord b h of Inl e \<Rightarrow> Inl e | Inr (tr, h') \<Rightarrow> Inr h')
      | CallToUser u m ord \<Rightarrow>
          (case BroadcastToUser marshal ord u m h of Inl e \<Rightarrow> Inl e | Inr (tr, h') \<Rightarrow> Inr h')
      | CallSweep now ord \<Rightarrow> Inr (snd (cleanupStaleConnections now ord h))
      | CallCleanup ord \<Rightarrow> close_all (map snd ord) h)"

definition call_second :: "'m call \<Rightarrow> state \<Rightarrow> state" where
  "call_second k h =
     (case k of
        CallRegister client \<Rightarrow>
          if conversationID client \<noteq> uuid_Nil
          then h\<lparr>conversations := add_member (conversationID client) client (conversations h)\<rparr>
          else h
      | CallUnregister client \<Rightarrow> unregister_room client h
      | CallBroadcast b ord \<Rightarrow> h
      | CallToUser u m ord \<Rightarrow> h
      | CallSweep now ord \<Rightarrow> h
      | CallCleanup ord \<Rightarrow> h\<lparr>clients := Map.empty, conversations := Map.empty\<rparr>)"

text \<open>
  A call in progress: the goroutine that makes it, the function with its arguments, and
  the statement it is at.  \<open>holding\<close>: the call has taken the lock and not yet released
  it.
\<close>

datatype phase = AtLock | FirstHalf | SecondHalf | AtUnlock | Finished

record 'm invocation =
  who :: actor
  call :: "'m call"
  phase :: phase

definition holding :: "'m invocation \<Rightarrow> bool" where
  "holding g \<longleftrightarrow> phase g = FirstHalf \<or> phase g = SecondHalf \<or> phase g = AtUnlock"

text \<open>
  The hub with its \<open>sync.RWMutex\<close> (held by a writer, or by a number of readers) and
  the calls made so far.  \<open>Lock\<close> waits while a writer or a reader holds the mutex,
  \<open>RLock\<close> waits while a writer holds it; a call that has to wait stays where it is.
  (Go also lets \<open>RLock\<close> wait while a writer is waiting; without that the schedules
  here are more than those of the program, not fewer.)
\<close>

record 'm system =
  hub :: state
  writer :: bool
  readers :: nat
  calls :: "'m invocation list"

definition boot :: "state \<Rightarrow> 'm system" where
  "boot h = \<lparr>hub = h, writer = False, readers = 0, calls = []\<rparr>"

definition enter :: "actor \<Rightarrow> 'm call \<Rightarrow> 'm system \<Rightarrow> 'm system" where
  "enter a k s = s\<lparr>calls := calls s @ [\<lparr>who = a, call = k, phase = AtLock\<rparr>]\<rparr>"

definition set_phase :: "nat \<Rightarrow> phase \<Rightarrow> 'm system \<Rightarrow> 'm system" where
  "set_phase i p s = s\<lparr>calls := (calls s)[i := (calls s ! i)\<lparr>phase := p\<rparr>]\<rparr>"

definition advance :: "('m \<Rightarrow> bytes option) \<Rightarrow> nat \<Rightarrow> 'm system \<Rightarrow> panic + 'm system" where
  \<comment> \<open>call number \<open>i\<close> executes its next statement\<close>
  "advance marshal i s =
     (if length (calls s) \<le> i then Inr s
      else (case phase (calls s ! i) of
              AtLock \<Rightarrow>
                if exclusive (call (calls s ! i))
                then (if writer s \<or> 0 < readers s then Inr s
                      else Inr (set_phase i FirstHalf (s\<lparr>writer := True\<rparr>)))
                else (if writer s then Inr s
                      else Inr (set_phase i FirstHalf (s\<lparr>readers := Suc (readers s)\<rparr>)))
            | FirstHalf \<Rightarrow>
                (case call_first marshal (call (calls s ! i)) (hub s) of
                   Inl e \<Rightarrow> Inl e
                 | Inr h' \<Rightarrow> Inr (set_phase i SecondHalf (s\<lparr>hub := h'\<rparr>)))
            | SecondHalf \<Rightarrow>
                Inr (set_phase i AtUnlock (s\<lparr>hub := call_second (call (calls s ! i)) (hub s)\<rparr>))
            | AtUnlock \<Rightarrow>
                if exclusive (call (calls s ! i))
                then Inr (set_phase i Finished (s\<lparr>writer := False\<rparr>))
                else Inr (set_phase i Finished (s\<lparr>readers := readers s - 1\<rparr>))
            | Finished \<Rightarrow> Inr s))"

text \<open>
  What happens, in the order it happens: the command loop, between two calls, takes a
  case of its \<open>select\<close> and calls the function of that case; a goroutine created by
  \<open>go h.unregisterClient(client)\<close> starts; some other goroutine calls
  \<open>BroadcastToUser\<close> or \<open>Shutdown\<close>; a call in progress executes its next statement.
  After \<open>ctx.Done()\<close> the loop runs the deferred \<open>cleanup\<close> and receives nothing more.
\<close>

datatype 'm event =
    LoopReceives "'m command"
  | GoStarts Client
  | ToUserCalled uuid 'm "Client list"
  | ShutdownCalled
  | Advance nat

definition loop_idle :: "'m system \<Rightarrow> bool" where
  "loop_idle s \<longleftrightarrow> list_all (\<lambda>g. who g \<noteq> CommandLoop \<or> phase g = Finished) (calls s)"

definition sched_step :: "('m \<Rightarrow> bytes option) \<Rightarrow> 'm event \<Rightarrow> 'm system \<Rightarrow> panic + 'm system" where
  "sched_step marshal ev s =
     (case ev of
        LoopReceives cmd \<Rightarrow>
          if hub_stopped (hub s) \<or> \<not> loop_idle s then Inr s
          else (case cmd of
                  CtxDone ord \<Rightarrow>
                    if hub_ctx_done (hub s)
                    then Inr (enter CommandLoop (CallCleanup ord) (s\<lparr>hub := (hub s)\<lparr>hub_stopped := True\<rparr>\<rparr>))
                    else Inr s
                | RegisterCmd client \<Rightarrow> Inr (enter CommandLoop (CallRegister client) s)
                | UnregisterCmd \<Rightarrow>
                    (case unregister (hub s) of
                       [] \<Rightarrow> Inr s
                     | client # rest \<Rightarrow>
                         Inr (enter CommandLoop (CallUnregister client)
                                (s\<lparr>hub := (hub s)\<lparr>unregister := rest\<rparr>\<rparr>)))
                | BroadcastCmd message ord \<Rightarrow> Inr (enter CommandLoop (CallBroadcast message ord) s)
                | CleanupTick now ord \<Rightarrow> Inr (enter CommandLoop (CallSweep now ord) s)
                | StatsTick \<Rightarrow> Inr s)
      | GoStarts client \<Rightarrow>
          if client \<in> set (go_unregister (hub s))
          then Inr (enter SpawnedGoroutine (CallUnregister client)
                      (s\<lparr>hub := (hub s)\<lparr>go_unregister := remove1 client (go_unregister (hub s))\<rparr>\<rparr>))
          else Inr s
      | ToUserCalled u m ord \<Rightarrow> Inr (enter Caller (CallToUser u m ord) s)
      | ShutdownCalled \<Rightarrow> Inr (s\<lparr>hub := Shutdown (hub s)\<rparr>)
      | Advance i \<Rightarrow> advance marshal i s)"

fun run_events :: "('m \<Rightarrow> bytes option) \<Rightarrow> 'm event list \<Rightarrow> 'm system \<Rightarrow> panic + 'm system" where
  "run_events marshal [] s = Inr s"
| "run_events marshal (ev # evs) s =
     (case sched_step marshal ev s of Inl e \<Rightarrow> Inl e | Inr s1 \<Rightarrow> run_events marshal evs s1)"

text \<open>What the proofs keep track of: the mutex counts the calls that hold it, and each
  function is called by the goroutines that call it in the source.\<close>

definition mu_inv :: "'m system \<Rightarrow> bool" where
  "mu_inv s \<longleftrightarrow>
     readers s = length (filter (\<lambda>g. holding g \<and> \<not> exclusive (call g)) (calls s)) \<and>
     length (filter (\<lambda>g. holding g \<and> exclusive (call g)) (calls s)) = (if writer s then 1 else 0) \<and>
     (writer s \<longrightarrow> readers s = 0)"

fun caller_ok :: "actor \<Rightarrow> 'm call \<Rightarrow> bool" where
  "caller_ok a (CallToUser u m ord) = (a = Caller)"
| "caller_ok a (CallUnregister c) = (a = CommandLoop \<or> a = SpawnedGoroutine)"
| "caller_ok a k = (a = CommandLoop)"

definition roles_inv :: "'m system \<Rightarrow> bool" where
  "roles_inv s \<longleftrightarrow> list_all (\<lambda>g. caller_ok (who g) (call g)) (calls s)"


section \<open>What a member of a room observes\<close>





section \<open>The read pump\<close>

text \<open>
  What the network and the other goroutines do to the read pump of one client, in the
  order it happens: a data frame arrives, a pong arrives, the read fails (peer close,
  transport error), or another goroutine cancels the client's context.  A frame comes
  with what the model cannot compute: the time, the error the router returns if it is
  called, and how the (at most two) \<open>SendMessage\<close> selects of the iteration resolve.
  \<open>ReadMessage\<close> follows gorilla/websocket: it runs the pong handler for a pong and
  keeps waiting, fails once the read deadline has passed, and fails on a frame above
  the read limit.  When nothing more arrives, the deadline passes.
\<close>

record recv =
  at :: time
  payload :: bytes
  handler_err :: "string option"
  sel1 :: select_env
  sel2 :: select_env

datatype net_event = Frame recv | Pong time | ReadError | Cancelled

definition updateActivity :: "Client \<Rightarrow> time \<Rightarrow> state \<Rightarrow> state" where
  "updateActivity c now h = h\<lparr>lastActivity := (lastActivity h)(c := now)\<rparr>"

definition SetReadDeadline :: "Client \<Rightarrow> time \<Rightarrow> state \<Rightarrow> state" where
  "SetReadDeadline c t h = h\<lparr>readDeadline := (readDeadline h)(c := t)\<rparr>"

definition pong_handler :: "Client \<Rightarrow> time \<Rightarrow> state \<Rightarrow> state" where
  "pong_handler c now h = updateActivity c now (SetReadDeadline c (now + pongWait) h)"

fun ReadMessage :: "Client \<Rightarrow> net_event list \<Rightarrow> state \<Rightarrow> recv option \<times> net_event list \<times> state" where
  "ReadMessage c [] h = (None, [], h)"
| "ReadMessage c (Pong t # es) h =
     (if readDeadline h c < t then (None, es, h) else ReadMessage c es (pong_handler c t h))"
| "ReadMessage c (Cancelled # es) h = ReadMessage c es (h\<lparr>ctx_done := (ctx_done h)(c := True)\<rparr>)"
| "ReadMessage c (ReadError # es) h = (None, es, h)"
| "ReadMessage c (Frame r # es) h =
     (if readDeadline h c < at r then (None, es, h)
      else if maxMessageSize < length (payload r) then (None, es, h)
      else (Some r, es, h))"

text \<open>
  \<open>read_fails_on h c ev\<close>: with the read deadline of \<open>c\<close> as it is in \<open>h\<close>, the
  event makes \<open>ReadMessage\<close> return an error: a failed read, a pong or a frame that
  comes after the deadline, a frame above the read limit.
\<close>

fun read_fails_on :: "state \<Rightarrow> Client \<Rightarrow> net_event \<Rightarrow> bool" where
  "read_fails_on h c ReadError = True"
| "read_fails_on h c (Pong t) = (readDeadline h c < t)"
| "read_fails_on h c (Frame r) = (readDeadline h c < at r \<or> maxMessageSize < length (payload r))"
| "read_fails_on h c Cancelled = False"

definition handleIncomingMessage :: "(WebSocketMessage \<Rightarrow> string + bytes) \<Rightarrow> Client \<Rightarrow> IncomingMessage \<Rightarrow> recv \<Rightarrow> state \<Rightarrow> panic + effect list \<times> send_result \<times> state" where
  \<comment> \<open>the result is the returned error: \<open>SendNil\<close> for nil, \<open>SendBlocked\<close> when the
      goroutine is still blocked in the \<open>SendMessage\<close> of the ping case\<close>
  "handleIncomingMessage marshal c msg r h =
     (if in_Type msg = ''message'' then
        (if hasHandler c
         then Inr ([HandleMessage c msg], (case handler_err r of None \<Rightarrow> SendNil | Some e \<Rightarrow> SendErr e), h)
         else Inr ([], SendNil, h))
      else if in_Type msg = ''typing'' then
        (if hasHandler c
         then Inr ([HandleTyping c], (case handler_err r of None \<Rightarrow> SendNil | Some e \<Rightarrow> SendErr e), h)
         else Inr ([], SendNil, h))
      else if in_Type msg = ''ping'' then
        (case SendMessage marshal c (NewWebSocketMessage ''pong'' (conversationID c) uuid_Nil) (sel1 r) h of
           Inl e \<Rightarrow> Inl e
         | Inr (res, h1) \<Rightarrow> Inr ([], res, h1))
      else Inr ([], SendErr (''unknown message type: '' @ in_Type msg), h))"

definition error_reply :: "(WebSocketMessage \<Rightarrow> string + bytes) \<Rightarrow> Client \<Rightarrow> string \<Rightarrow> select_env \<Rightarrow> effect list \<Rightarrow> state \<Rightarrow> effect list \<times> pump_status option \<times> state" where
  \<comment> \<open>\<open>c.SendError(text)\<close> in the loop; \<open>None\<close>: the loop goes on\<close>
  "error_reply marshal c text env tr h =
     (case SendError marshal c text env h of
        Inl e \<Rightarrow> (tr @ [SendErrorCall c text], Some (Crashed e), h)
      | Inr (SendBlocked, h1) \<Rightarrow> (tr @ [SendErrorCall c text], Some Stuck, h1)
      | Inr (res, h1) \<Rightarrow> (tr @ [SendErrorCall c text], None, h1))"

definition ReadPump_body :: "(bytes \<Rightarrow> IncomingMessage option) \<Rightarrow> (WebSocketMessage \<Rightarrow> string + bytes) \<Rightarrow> Client \<Rightarrow> recv \<Rightarrow> state \<Rightarrow> effect list \<times> pump_status option \<times> state" where
  \<comment> \<open>the loop body after a successful \<open>ReadMessage\<close>; \<open>None\<close>: the loop goes on\<close>
  "ReadPump_body unmarshal marshal c r h =
     (let h1 = updateActivity c (at r) h
      in case unmarshal (payload r) of
           None \<Rightarrow> error_reply marshal c ''Invalid message format'' (sel1 r) [] h1
         | Some incomingMsg \<Rightarrow>
             (case handleIncomingMessage marshal c incomingMsg r h1 of
                Inl e \<Rightarrow> ([], Some (Crashed e), h1)
              | Inr (tr, SendNil, h2) \<Rightarrow> (tr, None, h2)
              | Inr (tr, SendBlocked, h2) \<Rightarrow> (tr, Some Stuck, h2)
              | Inr (tr, SendErr e, h2) \<Rightarrow>
                  error_reply marshal c (''Error processing message: '' @ e) (sel2 r) tr h2))"

function ReadPump_loop :: "(bytes \<Rightarrow> IncomingMessage option) \<Rightarrow> (WebSocketMessage \<Rightarrow> string + bytes) \<Rightarrow> Client \<Rightarrow> net_event list \<Rightarrow> state \<Rightarrow> effect list \<times> pump_status \<times> state" where
  "ReadPump_loop unmarshal marshal c es h =
     (if ctx_done h c then ([], Returned, h)
      else (case ReadMessage c es h of
              (None, es1, h1) \<Rightarrow> ([], Returned, h1)
            | (Some r, es1, h1) \<Rightarrow>
                (case ReadPump_body unmarshal marshal c r h1 of
                   (tr, Some st, h2) \<Rightarrow> (tr, st, h2)
                 | (tr, None, h2) \<Rightarrow>
                     (case ReadPump_loop unmarshal marshal c es1 h2 of
                        (tr2, st, h3) \<Rightarrow> (tr @ tr2, st, h3)))))"
  by pat_completeness auto
termination
proof -
  have shorter: "ReadMessage c es h = (Some r, es1, h1) \<Longrightarrow> length es1 < length es"
    for c es h r es1 h1
    by (induction c es h rule: ReadMessage.induct) (auto split: if_splits)
  show ?thesis
    by (relation "measure (\<lambda>(unmarshal, marshal, c, es, h). length es)")
       (auto dest: shorter[OF sym])
qed

declare ReadPump_loop.simps [simp del]

text \<open>
  \<open>c.hub.unregister <- c\<close> is a plain send on a buffered channel: it goes through when
  the buffer has room and blocks the goroutine otherwise, until \<open>Run\<close> has received
  from the channel.  Nobody else receives from it and nobody closes it.
\<close>

definition unregister_send :: "Client \<Rightarrow> state \<Rightarrow> state option" where
  "unregister_send c h =
     (if length (unregister h) < unregisterBufferSize
      then Some (h\<lparr>unregister := unregister h @ [c]\<rparr>)
      else None)"

definition ReadPump_defer :: "Client \<Rightarrow> state \<Rightarrow> (effect list \<times> state) option" where
  \<comment> \<open>\<open>c.hub.unregister <- c; c.conn.Close(); c.cancel(); HandleDisconnect\<close>, looked at
      at one moment; \<open>None\<close>: the goroutine is blocked in the send, and nothing after
      it has run\<close>
  "ReadPump_defer c h =
     (case unregister_send c h of
        None \<Rightarrow> None
      | Some h1 \<Rightarrow>
          Some ([SubmitUnregister c, ConnClose c, CtxCancel c] @
                  (if hasHandler c then [HandleDisconnect c] else []),
                h1\<lparr>conn_closed := (conn_closed h1)(c := True), ctx_done := (ctx_done h1)(c := True)\<rparr>))"

definition ReadPump :: "(bytes \<Rightarrow> IncomingMessage option) \<Rightarrow> (WebSocketMessage \<Rightarrow> string + bytes) \<Rightarrow> Client \<Rightarrow> time \<Rightarrow> net_event list \<Rightarrow> state \<Rightarrow> effect list \<times> pump_status \<times> state" where
  \<comment> \<open>\<open>now\<close> is the time at which the pump starts.  A pump still blocked in a send of
      the loop has not run its deferred function; a pump whose loop has ended (by a
      return or a panic) runs it, and is \<open>Stuck\<close> when that is blocked in its send.\<close>
  "ReadPump unmarshal marshal c now es h =
     (case ReadPump_loop unmarshal marshal c es (SetReadDeadline c (now + pongWait) h) of
        (tr, Stuck, h1) \<Rightarrow> (tr, Stuck, h1)
      | (tr, st, h1) \<Rightarrow>
          (case ReadPump_defer c h1 of
             None \<Rightarrow> (tr, Stuck, h1)
           | Some (tr2, h2) \<Rightarrow> (tr @ tr2, st, h2)))"

text \<open>
  \<open>same_but_queue c h h'\<close>: from \<open>h\<close> to \<open>h'\<close> nothing has changed but the
  content of the queue of \<open>c\<close> and the activity time stamps.
\<close>

definition same_but_queue :: "Client \<Rightarrow> state \<Rightarrow> state \<Rightarrow> bool" where
  "same_but_queue c h h' \<longleftrightarrow>
     clients h' = clients h \<and> conversations h' = conversations h \<and>
     unregister h' = unregister h \<and>
     go_unregister h' = go_unregister h \<and> hub_ctx_done h' = hub_ctx_done h \<and>
     hub_stopped h' = hub_stopped h \<and>
     readDeadline h' = readDeadline h \<and> ctx_done h' = ctx_done h \<and>
     conn_closed h' = conn_closed h \<and> wire h' = wire h \<and>
     (\<forall>x. x \<noteq> c \<longrightarrow> send h' x = send h x) \<and> closed (send h' c) = closed (send h c)"

definition error_event :: "Client \<Rightarrow> string \<Rightarrow> WebSocketMessage" where
  \<comment> \<open>the message that \<open>SendError\<close> builds\<close>
  "error_event c errorMsg =
     (NewWebSocketMessage MessageTypeError (conversationID c) uuid_Nil)\<lparr>ws_Error := errorMsg\<rparr>"

definition select_blocked :: "Client \<Rightarrow> select_env \<Rightarrow> state \<Rightarrow> bool" where
  \<comment> \<open>no case of the select in \<open>SendMessage\<close> can proceed: the queue is open and full,
      the 5 seconds are not over, the context is not cancelled\<close>
  "select_blocked c env h \<longleftrightarrow>
     \<not> send_ready (send h c) \<and> \<not> timer_ready (fst env) \<and> \<not> ctx_done h c"


section \<open>Example connections and states\<close>

text \<open>
  Two connections of different identities in room 7, a second connection of the first
  identity without a room, and a store in which every connection is as \<open>NewClient\<close>
  leaves it: an empty open queue, nothing written.
\<close>

definition conn_A :: Client where
  "conn_A = \<lparr>addr = 1, id_c = ''a'', userID = 1, conversationID = 7, hasHandler = True\<rparr>"

definition conn_B :: Client where
  "conn_B = \<lparr>addr = 2, id_c = ''b'', userID = 2, conversationID = 7, hasHandler = True\<rparr>"

definition conn_C :: Client where
  "conn_C = \<lparr>addr = 3, id_c = ''c'', userID = 1, conversationID = 0, hasHandler = True\<rparr>"

definition fresh :: state where
  "fresh = \<lparr>clients = Map.empty, conversations = Map.empty, unregister = [], hub_ctx_done = False,
            hub_stopped = False, go_unregister = [],
            send = (\<lambda>c. make_chan), lastActivity = (\<lambda>c. 0), readDeadline = (\<lambda>c. 0),
            ctx_done = (\<lambda>c. False), conn_closed = (\<lambda>c. False), wire = (\<lambda>c. [])\<rparr>"

definition full_chan :: chan where
  \<comment> \<open>a queue whose consumer never read: 256 undelivered items\<close>
  "full_chan = \<lparr>buf = replicate 256 ''x'', closed = False\<rparr>"


text \<open>
  An example event type: a text that serialises to itself, and a value that
  \<open>json.Marshal\<close> rejects (a channel, a function, a NaN in the metadata).
\<close>

datatype ex_msg = Text string | Unserialisable

fun marshal_ex :: "ex_msg \<Rightarrow> bytes option" where
  "marshal_ex (Text s) = Some s"
| "marshal_ex Unserialisable = None"

fun marshal_ex_err :: "ex_msg \<Rightarrow> string + bytes" where
  \<comment> \<open>the same serialiser, with the text of its error\<close>
  "marshal_ex_err (Text s) = Inr s"
| "marshal_ex_err Unserialisable = Inl ''json: unsupported type''"

definition room7 :: state where
  \<comment> \<open>\<open>conn_A\<close> and \<open>conn_B\<close> registered with a fresh hub\<close>
  "room7 = registerClient conn_B (registerClient conn_A (NewHub fresh))"


definition room7_full :: state where
  \<comment> \<open>as \<open>room7\<close>, after 256 events were queued for \<open>conn_A\<close> and its write pump took none\<close>
  "room7_full = room7\<lparr>send := (send room7)(conn_A := full_chan)\<rparr>"


definition hello7 :: "ex_msg BroadcastMessage" where
  \<comment> \<open>\<open>BroadcastToConversation(7, Text "hi", nil)\<close>\<close>
  "hello7 = \<lparr>ConversationID = 7, UserID = 0, Message = Text ''hi'', ExcludeClient = None\<rparr>"

definition room7_dropped :: state where
  \<comment> \<open>\<open>room7_full\<close> after the loop has broadcast \<open>hello7\<close>: queued for \<open>conn_B\<close>, dropped
      for \<open>conn_A\<close>, whose unregistration is started\<close>
  "room7_dropped =
     room7_full\<lparr>send := (send room7_full)(conn_B := \<lparr>buf = [''hi''], closed = False\<rparr>),
                go_unregister := [conn_A]\<rparr>"


text \<open>
  An example wire format for the read pump: the payload \<open>{\<close> does not decode, any
  other payload decodes to an event whose type is the payload; an outbound message
  serialises to its type, a colon and its error text.
\<close>

definition unmarshal_ex :: "bytes \<Rightarrow> IncomingMessage option" where
  "unmarshal_ex p =
     (if p = ''{'' then None
      else Some \<lparr>in_Type = p, in_Content = [], in_ConversationID = 7, in_AttachmentIDs = []\<rparr>)"

definition marshal_ws :: "WebSocketMessage \<Rightarrow> string + bytes" where
  "marshal_ws m = Inr (ws_Type m @ '':'' @ ws_Error m)"

definition frame_at :: "time \<Rightarrow> bytes \<Rightarrow> recv" where
  \<comment> \<open>a frame at the given second; the router returns nil; a select is looked at as it is entered\<close>
  "frame_at secs p = \<lparr>at = secs * Second, payload = p, handler_err = None, sel1 = (0, []), sel2 = (0, [])\<rparr>"


text \<open>
  A hub that is gone: \<open>Shutdown\<close> was called and \<open>Run\<close> has returned.  Since then
  the read pumps of 64 connections have ended and have run their deferred functions,
  one after the other: each has sent its connection on \<open>unregister\<close>, which nobody
  receives from any more.
\<close>

definition waiting :: "Client list" where
  "waiting = map (\<lambda>n. \<lparr>addr = 10 + n, id_c = ''w'', userID = 10 + n, conversationID = 7,
                        hasHandler = True\<rparr>) [0..<64]"

definition stopped_hub :: state where
  "stopped_hub = (NewHub fresh)\<lparr>hub_ctx_done := True, hub_stopped := True\<rparr>"

fun defer_all :: "Client list \<Rightarrow> state \<Rightarrow> state option" where
  \<comment> \<open>\<open>None\<close>: one of the deferred functions is blocked\<close>
  "defer_all [] h = Some h"
| "defer_all (c # cs) h =
     (case ReadPump_defer c h of None \<Rightarrow> None | Some (tr, h1) \<Rightarrow> defer_all cs h1)"

definition hub_gone :: state where
  "hub_gone = (case defer_all waiting stopped_hub of Some h \<Rightarrow> h | None \<Rightarrow> stopped_hub)"

definition room7_closed :: state where
  \<comment> \<open>\<open>room7\<close> after the hub has run \<open>unregisterClient\<close> for \<open>conn_A\<close>, whose pumps still run\<close>
  "room7_closed = (registerClient conn_B (NewHub fresh))\<lparr>send := (send fresh)(conn_A := \<lparr>buf = [], closed = True\<rparr>)\<rparr>"


section \<open>Properties\<close>


lemma member_of_add_member:
  "member_of (add_member k c t) k' x \<longleftrightarrow> (k' = k \<and> x = c) \<or> member_of t k' x"
  by (auto simp: member_of_def add_member_def split: option.splits)

lemma member_of_remove_member:
  "member_of (remove_member k c cs t) k' x \<longleftrightarrow>
     (if k' = k then x \<in> cs \<and> x \<noteq> c else member_of t k' x)"
  by (auto simp: member_of_def remove_member_def split: option.splits)

lemma no_empty_add_member:
  "no_empty_entry t \<Longrightarrow> no_empty_entry (add_member k c t)"
  by (simp add: no_empty_entry_def add_member_def split: option.splits)

lemma no_empty_remove_member:
  "no_empty_entry t \<Longrightarrow> no_empty_entry (remove_member k c cs t)"
  by (simp add: no_empty_entry_def remove_member_def)

lemma registerClient_clients:
  "clients (registerClient c h) = add_member (userID c) c (clients h)"
  by (simp add: registerClient_def Let_def)

lemma registerClient_conversations:
  "conversations (registerClient c h) =
     (if conversationID c \<noteq> uuid_Nil then add_member (conversationID c) c (conversations h)
      else conversations h)"
  by (simp add: registerClient_def Let_def)

lemma registerClient_send: "send (registerClient c h) = send h"
  by (simp add: registerClient_def Let_def)

lemma registerClient_tables_inv:
  "tables_inv h \<Longrightarrow> tables_inv (registerClient c h)"
  unfolding tables_inv_def room_in_identity_def room_non_nil_def
  by (auto simp: registerClient_clients registerClient_conversations member_of_add_member
      no_empty_add_member)

lemma registerClient_identity_keyed:
  "identity_keyed h \<Longrightarrow> identity_keyed (registerClient c h)"
  unfolding identity_keyed_def
  by (auto simp: registerClient_clients member_of_add_member)

lemma registerClient_registered_open:
  "registered_open h \<Longrightarrow> \<not> closed (send h c) \<Longrightarrow> registered_open (registerClient c h)"
  unfolding registered_open_def
  by (auto simp: registerClient_clients registerClient_send member_of_add_member)

lemma registerClient_hub_inv:
  "hub_inv h \<Longrightarrow> \<not> closed (send h c) \<Longrightarrow> hub_inv (registerClient c h)"
  by (simp add: hub_inv_def registerClient_tables_inv registerClient_identity_keyed
      registerClient_registered_open)

lemma unregister_room_clients: "clients (unregister_room c h) = clients h"
  by (simp add: unregister_room_def split: option.splits)

lemma unregister_room_send: "send (unregister_room c h) = send h"
  by (simp add: unregister_room_def split: option.splits)

lemma unregister_room_member:
  "member_of (conversations (unregister_room c h)) r x \<longleftrightarrow>
     member_of (conversations h) r x \<and> \<not> (x = c \<and> r = conversationID c \<and> conversationID c \<noteq> uuid_Nil)"
  by (auto simp: unregister_room_def member_of_remove_member split: option.splits)
     (auto simp: member_of_def)

lemma unregister_room_no_empty:
  "no_empty_entry (conversations h) \<Longrightarrow> no_empty_entry (conversations (unregister_room c h))"
  by (simp add: unregister_room_def no_empty_remove_member split: option.splits)

text \<open>The result of unregisterClient, field by field.\<close>

lemma unregisterClient_eq:
  "unregisterClient c h =
     (if is_registered h c
      then if closed (send h c) then Inl CloseOfClosedChannel
           else Inr (unregister_room c
                  (h\<lparr>send := (send h)(c := (send h c)\<lparr>closed := True\<rparr>),
                     clients := remove_member (userID c) c (the (clients h (userID c))) (clients h)\<rparr>))
      else Inr (unregister_room c h))"
  by (cases "clients h (userID c)")
     (auto simp: unregisterClient_def is_registered_def member_of_def chan_close_def)

lemma unregisterClient_member_clients:
  assumes "unregisterClient c h = Inr h'"
  shows "member_of (clients h') u x \<longleftrightarrow> member_of (clients h) u x \<and> \<not> (x = c \<and> u = userID c)"
proof (cases "is_registered h c")
  case True
  then obtain cs where cs: "clients h (userID c) = Some cs" "c \<in> cs"
    by (auto simp: is_registered_def member_of_def split: option.splits)
  with True assms show ?thesis
    by (auto simp: unregisterClient_eq unregister_room_clients member_of_remove_member
        split: if_splits) (auto simp: member_of_def)
next
  case False
  with assms show ?thesis
    by (auto simp: unregisterClient_eq unregister_room_clients is_registered_def)
qed

lemma unregisterClient_member_conversations:
  assumes "unregisterClient c h = Inr h'"
  shows "member_of (conversations h') r x \<longleftrightarrow>
         member_of (conversations h) r x \<and> \<not> (x = c \<and> r = conversationID c \<and> conversationID c \<noteq> uuid_Nil)"
  using assms by (auto simp: unregisterClient_eq unregister_room_member split: if_splits)

lemma unregisterClient_send:
  assumes "unregisterClient c h = Inr h'"
  shows "send h' = (if is_registered h c then (send h)(c := (send h c)\<lparr>closed := True\<rparr>) else send h)"
  using assms by (auto simp: unregisterClient_eq unregister_room_send split: if_splits)

lemma unregisterClient_no_empty_clients:
  assumes "unregisterClient c h = Inr h'" "no_empty_entry (clients h)"
  shows "no_empty_entry (clients h')"
  using assms
  by (auto simp: unregisterClient_eq unregister_room_clients no_empty_remove_member split: if_splits)

lemma unregisterClient_no_empty_conversations:
  assumes "unregisterClient c h = Inr h'" "no_empty_entry (conversations h)"
  shows "no_empty_entry (conversations h')"
  using assms
  by (auto simp: unregisterClient_eq split: if_splits intro!: unregister_room_no_empty)

lemma unregisterClient_tables_inv:
  assumes "unregisterClient c h = Inr h'" "tables_inv h"
  shows "tables_inv h'"
  using assms(2)
  unfolding tables_inv_def room_in_identity_def room_non_nil_def
  by (auto simp: unregisterClient_member_clients[OF assms(1)]
      unregisterClient_member_conversations[OF assms(1)]
      unregisterClient_no_empty_clients[OF assms(1)]
      unregisterClient_no_empty_conversations[OF assms(1)])

lemma unregisterClient_identity_keyed:
  assumes "unregisterClient c h = Inr h'" "identity_keyed h"
  shows "identity_keyed h'"
  using assms(2) unfolding identity_keyed_def
  by (auto simp: unregisterClient_member_clients[OF assms(1)])

lemma unregisterClient_registered_open:
  assumes "unregisterClient c h = Inr h'" "registered_open h" "identity_keyed h"
  shows "registered_open h'"
  using assms(2,3) unfolding registered_open_def identity_keyed_def
  by (auto simp: unregisterClient_member_clients[OF assms(1)] unregisterClient_send[OF assms(1)])

lemma unregisterClient_no_panic:
  assumes "registered_open h"
  shows "\<exists>h'. unregisterClient c h = Inr h'"
  using assms
  by (auto simp: unregisterClient_eq registered_open_def is_registered_def)

lemma unregisterClient_hub_inv:
  assumes "hub_inv h"
  shows "\<exists>h'. unregisterClient c h = Inr h' \<and> hub_inv h'"
proof -
  from assms obtain h' where h': "unregisterClient c h = Inr h'"
    using unregisterClient_no_panic[of h c] by (auto simp: hub_inv_def)
  with assms have "hub_inv h'"
    by (simp add: hub_inv_def unregisterClient_tables_inv unregisterClient_identity_keyed
        unregisterClient_registered_open)
  with h' show ?thesis by blast
qed


lemma run_ops_hub_inv:
  assumes "hub_inv h" "distinct (registered_of ops)"
    and "\<forall>c\<in>set (registered_of ops). \<not> closed (send h c) \<and> \<not> is_registered h c"
  shows "\<exists>h'. run_ops ops h = Inr h' \<and> hub_inv h'"
  using assms
proof (induction ops arbitrary: h)
  case Nil
  then show ?case by simp
next
  case (Cons op ops)
  show ?case
  proof (cases op)
    case (Register c)
    have inv: "hub_inv (registerClient c h)"
      using Cons.prems Register by (simp add: registerClient_hub_inv)
    have rest: "\<forall>x\<in>set (registered_of ops).
        \<not> closed (send (registerClient c h) x) \<and> \<not> is_registered (registerClient c h) x"
      using Cons.prems Register
      by (auto simp: registerClient_send is_registered_def registerClient_clients member_of_add_member)
    from Cons.IH[OF inv _ rest] Cons.prems(2) Register show ?thesis by simp
  next
    case (Unregister c)
    from unregisterClient_hub_inv[OF Cons.prems(1), of c]
    obtain h1 where h1: "unregisterClient c h = Inr h1" "hub_inv h1" by blast
    have rest: "\<forall>x\<in>set (registered_of ops). \<not> closed (send h1 x) \<and> \<not> is_registered h1 x"
      using Cons.prems(3) Unregister
      by (auto simp: unregisterClient_send[OF h1(1)] is_registered_def
          unregisterClient_member_clients[OF h1(1)])
    from Cons.IH[OF h1(2) _ rest] Cons.prems(2) Unregister h1(1) show ?thesis by simp
  qed
qed

lemma run_ops_tables_inv:
  "tables_inv h \<Longrightarrow> run_ops ops h = Inr h' \<Longrightarrow> tables_inv h'"
proof (induction ops arbitrary: h)
  case Nil
  then show ?case by simp
next
  case (Cons op ops)
  show ?case
  proof (cases op)
    case (Register c)
    with Cons.prems Cons.IH[of "registerClient c h"] show ?thesis
      by (simp add: registerClient_tables_inv)
  next
    case (Unregister c)
    with Cons.prems obtain h1 where h1: "unregisterClient c h = Inr h1" "run_ops ops h1 = Inr h'"
      by (auto split: sum.splits)
    from unregisterClient_tables_inv[OF h1(1) Cons.prems(1)] h1(2) show ?thesis
      by (rule Cons.IH)
  qed
qed

lemma hub_inv_NewHub: "hub_inv (NewHub s)"
  by (simp add: hub_inv_def tables_inv_def no_empty_entry_def room_in_identity_def
      room_non_nil_def identity_keyed_def registered_open_def member_of_def NewHub_def)

lemma unregisterClient_last_identity:
  assumes "unregisterClient c h = Inr h'" "clients h (userID c) = Some {c}"
  shows "clients h' (userID c) = None"
proof -
  have "is_registered h c" using assms(2) by (simp add: is_registered_def member_of_def)
  with assms show ?thesis
    by (auto simp: unregisterClient_eq unregister_room_clients remove_member_def split: if_splits)
qed

lemma unregisterClient_last_room:
  assumes "unregisterClient c h = Inr h'" "conversations h (conversationID c) = Some {c}"
    "conversationID c \<noteq> uuid_Nil"
  shows "conversations h' (conversationID c) = None"
proof -
  have "conversations (unregister_room c h1) (conversationID c) = None"
    if "conversations h1 = conversations h" for h1
    using that assms(2,3) by (simp add: unregister_room_def remove_member_def)
  with assms(1) show ?thesis
    by (auto simp: unregisterClient_eq split: if_splits)
qed

text \<open>
  C1.  Start from a fresh hub and run any sequence of register and unregister commands.
  If no connection is registered twice and the queues of the registered connections
  are open when the run starts (\<open>NewClient\<close> makes a fresh open queue for every
  connection), the run does not panic.  Whenever the run completes, neither table has
  an entry with an empty set, every connection filed under a room is filed under its
  own identity, its room id is that room and is not nil; and unregistering the last
  connection of an identity or of a room from the state reached deletes the entry.
\<close>

theorem C1_tables_invariant:
  "(distinct (registered_of ops) \<and> (\<forall>c\<in>set (registered_of ops). \<not> closed (send s c))
      \<longrightarrow> (\<exists>h. run_ops ops (NewHub s) = Inr h)) \<and>
   (\<forall>h. run_ops ops (NewHub s) = Inr h \<longrightarrow>
      no_empty_entry (clients h) \<and> no_empty_entry (conversations h) \<and>
      (\<forall>r c. member_of (conversations h) r c \<longrightarrow>
         member_of (clients h) (userID c) c \<and> conversationID c = r \<and> conversationID c \<noteq> uuid_Nil) \<and>
      (\<forall>c h'. unregisterClient c h = Inr h' \<longrightarrow>
         (clients h (userID c) = Some {c} \<longrightarrow> clients h' (userID c) = None) \<and>
         (conversations h (conversationID c) = Some {c} \<longrightarrow> conversations h' (conversationID c) = None)))"
proof -
  have part1: "\<exists>h. run_ops ops (NewHub s) = Inr h"
    if a: "distinct (registered_of ops) \<and> (\<forall>c\<in>set (registered_of ops). \<not> closed (send s c))"
  proof -
    from a have "\<forall>c\<in>set (registered_of ops).
        \<not> closed (send (NewHub s) c) \<and> \<not> is_registered (NewHub s) c"
      by (simp add: NewHub_def is_registered_def member_of_def)
    with run_ops_hub_inv[OF hub_inv_NewHub, of ops s] a show ?thesis by blast
  qed
  have part2: "no_empty_entry (clients h) \<and> no_empty_entry (conversations h) \<and>
      (\<forall>r c. member_of (conversations h) r c \<longrightarrow>
         member_of (clients h) (userID c) c \<and> conversationID c = r \<and> conversationID c \<noteq> uuid_Nil) \<and>
      (\<forall>c h'. unregisterClient c h = Inr h' \<longrightarrow>
         (clients h (userID c) = Some {c} \<longrightarrow> clients h' (userID c) = None) \<and>
         (conversations h (conversationID c) = Some {c} \<longrightarrow> conversations h' (conversationID c) = None))"
    if run: "run_ops ops (NewHub s) = Inr h" for h
  proof -
    have "tables_inv (NewHub s)" using hub_inv_NewHub by (simp add: hub_inv_def)
    then have t: "tables_inv h" using run by (rule run_ops_tables_inv)
    have ne: "no_empty_entry (clients h)" "no_empty_entry (conversations h)"
      using t by (simp_all add: tables_inv_def)
    have rc: "\<forall>r c. member_of (conversations h) r c \<longrightarrow>
        member_of (clients h) (userID c) c \<and> conversationID c = r \<and> conversationID c \<noteq> uuid_Nil"
      using t unfolding tables_inv_def room_in_identity_def room_non_nil_def by blast
    have l1: "clients h' (userID c) = None"
      if "unregisterClient c h = Inr h'" "clients h (userID c) = Some {c}" for c h'
      using that by (rule unregisterClient_last_identity)
    have l2: "conversations h' (conversationID c) = None"
      if u: "unregisterClient c h = Inr h'" and r: "conversations h (conversationID c) = Some {c}" for c h'
    proof -
      from r have "member_of (conversations h) (conversationID c) c" by (simp add: member_of_def)
      with rc have "conversationID c \<noteq> uuid_Nil" by blast
      with u r show ?thesis by (rule unregisterClient_last_room)
    qed
    from l1 l2 have last: "\<forall>c h'. unregisterClient c h = Inr h' \<longrightarrow>
         (clients h (userID c) = Some {c} \<longrightarrow> clients h' (userID c) = None) \<and>
         (conversations h (conversationID c) = Some {c} \<longrightarrow> conversations h' (conversationID c) = None)"
      by blast
    from ne rc last show ?thesis by (intro conjI)
  qed
  from part1 part2 show ?thesis by blast
qed

theorem C1_tables_invariant_witness:
  "distinct (registered_of [Register conn_A, Register conn_B, Register conn_C, Unregister conn_A, Unregister conn_A]) \<and>
   \<not> closed (send fresh conn_A) \<and> \<not> closed (send fresh conn_B) \<and> \<not> closed (send fresh conn_C) \<and>
   (\<exists>h. run_ops [Register conn_A, Register conn_B, Register conn_C, Unregister conn_A, Unregister conn_A] (NewHub fresh) = Inr h \<and>
        no_empty_entry (clients h) \<and> no_empty_entry (conversations h))"
proof -
  have d: "distinct (registered_of [Register conn_A, Register conn_B, Register conn_C, Unregister conn_A, Unregister conn_A])"
    by (simp add: conn_A_def conn_B_def conn_C_def)
  have o: "\<forall>c\<in>set (registered_of [Register conn_A, Register conn_B, Register conn_C, Unregister conn_A, Unregister conn_A]).
       \<not> closed (send fresh c)"
    by (simp add: fresh_def make_chan_def)
  have o': "\<not> closed (send fresh conn_A) \<and> \<not> closed (send fresh conn_B) \<and> \<not> closed (send fresh conn_C)"
    by (simp add: fresh_def make_chan_def)
  from C1_tables_invariant[of "[Register conn_A, Register conn_B, Register conn_C, Unregister conn_A, Unregister conn_A]" fresh] d o
  have "\<exists>h. run_ops [Register conn_A, Register conn_B, Register conn_C, Unregister conn_A, Unregister conn_A] (NewHub fresh) = Inr h \<and>
        no_empty_entry (clients h) \<and> no_empty_entry (conversations h)"
    by blast
  with d o' show ?thesis by blast
qed


lemma broadcast_loop_closed_form:
  assumes "distinct ord" "\<forall>c\<in>set ord. ex \<noteq> Some c \<longrightarrow> \<not> closed (send h c)"
  shows "broadcast_loop data ex ord (tr, h) =
     Inr (tr @ concat (map (\<lambda>c. if ex = Some c then []
                                 else if length (buf (send h c)) < sendBufferSize then [Sent c data]
                                 else [LogChannelFull c, GoUnregisterClient c]) ord),
          h\<lparr>send := (\<lambda>c. if c \<in> set ord \<and> ex \<noteq> Some c \<and> length (buf (send h c)) < sendBufferSize
                         then (send h c)\<lparr>buf := buf (send h c) @ [data]\<rparr> else send h c),
            go_unregister := go_unregister h @
               filter (\<lambda>c. ex \<noteq> Some c \<and> \<not> length (buf (send h c)) < sendBufferSize) ord\<rparr>)"
  using assms
proof (induction ord arbitrary: tr h)
  case Nil
  then show ?case by simp
next
  case (Cons client rest)
  have nin: "client \<notin> set rest" and d: "distinct rest" using Cons.prems(1) by auto
  show ?case
  proof (cases "ex = Some client")
    case True
    have "\<forall>c\<in>set rest. ex \<noteq> Some c \<longrightarrow> \<not> closed (send h c)" using Cons.prems(2) by simp
    from Cons.IH[OF d this, of tr] True nin show ?thesis
      by (auto intro!: arg_cong2[where f="\<lambda>a b. h\<lparr>send := a, go_unregister := b\<rparr>"] simp: fun_eq_iff)
  next
    case False
    then have op: "\<not> closed (send h client)" using Cons.prems(2) by simp
    show ?thesis
    proof (cases "length (buf (send h client)) < sendBufferSize")
      case True
      let ?h1 = "h\<lparr>send := (send h)(client := (send h client)\<lparr>buf := buf (send h client) @ [data]\<rparr>)\<rparr>"
      have same: "\<And>c. c \<in> set rest \<Longrightarrow> send ?h1 c = send h c" using nin by auto
      have pre: "\<forall>c\<in>set rest. ex \<noteq> Some c \<longrightarrow> \<not> closed (send ?h1 c)"
        using Cons.prems(2) nin by auto
      have m: "map (\<lambda>c. if ex = Some c then []
                                 else if length (buf (send ?h1 c)) < sendBufferSize then [Sent c data]
                                 else [LogChannelFull c, GoUnregisterClient c]) rest
             = map (\<lambda>c. if ex = Some c then []
                                 else if length (buf (send h c)) < sendBufferSize then [Sent c data]
                                 else [LogChannelFull c, GoUnregisterClient c]) rest"
        using nin by (intro map_cong) auto
      have f: "filter (\<lambda>c. ex \<noteq> Some c \<and> \<not> length (buf (send ?h1 c)) < sendBufferSize) rest
           = filter (\<lambda>c. ex \<noteq> Some c \<and> \<not> length (buf (send h c)) < sendBufferSize) rest"
        using nin by (intro filter_cong) auto
      have s: "(\<lambda>c. if c \<in> set rest \<and> ex \<noteq> Some c \<and> length (buf (send ?h1 c)) < sendBufferSize
                         then (send ?h1 c)\<lparr>buf := buf (send ?h1 c) @ [data]\<rparr> else send ?h1 c)
          = (\<lambda>c. if c \<in> set (client # rest) \<and> ex \<noteq> Some c \<and> length (buf (send h c)) < sendBufferSize
                         then (send h c)\<lparr>buf := buf (send h c) @ [data]\<rparr> else send h c)"
        using nin True False by (auto simp: fun_eq_iff)
      note IH = Cons.IH[OF d pre, of "tr @ [Sent client data]", unfolded m f s]
      have st: "?h1\<lparr>send := sf, go_unregister := g\<rparr> = h\<lparr>send := sf, go_unregister := g\<rparr>" for sf g
        by simp
      show ?thesis
        using True False op by (simp add: chan_try_send_def IH[unfolded st])
    next
      case full: False
      let ?h1 = "h\<lparr>go_unregister := go_unregister h @ [client]\<rparr>"
      have pre: "\<forall>c\<in>set rest. ex \<noteq> Some c \<longrightarrow> \<not> closed (send ?h1 c)"
        using Cons.prems(2) by auto
      have s: "(\<lambda>c. if c \<in> set rest \<and> ex \<noteq> Some c \<and> length (buf (send h c)) < sendBufferSize
                         then (send h c)\<lparr>buf := buf (send h c) @ [data]\<rparr> else send h c)
          = (\<lambda>c. if c \<in> set (client # rest) \<and> ex \<noteq> Some c \<and> length (buf (send h c)) < sendBufferSize
                         then (send h c)\<lparr>buf := buf (send h c) @ [data]\<rparr> else send h c)"
        using full by (auto simp: fun_eq_iff)
      have e: "send ?h1 = send h" "go_unregister ?h1 = go_unregister h @ [client]" by simp_all
      have st: "?h1\<lparr>send := sf, go_unregister := g\<rparr> = h\<lparr>send := sf, go_unregister := g\<rparr>" for sf g
        by simp
      note IH = Cons.IH[OF d pre, of "tr @ [LogChannelFull client, GoUnregisterClient client]",
          unfolded e st s]
      show ?thesis
        using full False op by (simp add: chan_try_send_def IH)
    qed
  qed
qed


lemma room7_tables:
  "clients room7 = [1 \<mapsto> {conn_A}, 2 \<mapsto> {conn_B}]"
  "conversations room7 = [7 \<mapsto> {conn_B, conn_A}]"
  "send room7 = (\<lambda>c. make_chan)"
  "go_unregister room7 = []"
  by (simp_all add: room7_def registerClient_def add_member_def NewHub_def fresh_def
      conn_A_def conn_B_def uuid_Nil_def Let_def)

lemma conns_distinct: "conn_A \<noteq> conn_B" "conn_A \<noteq> conn_C" "conn_B \<noteq> conn_C"
  by (simp_all add: conn_A_def conn_B_def conn_C_def)

text \<open>
  C2 (as amended).  \<open>broadcastMessage\<close> calls \<open>json.Marshal\<close> once, whatever happens
  next, and leaves both tables alone.  The excluded connection's queue is not touched
  and nothing is sent to it.  If serialisation fails, nothing else happens.  If it
  succeeds, every member of the room other than the excluded one gets one attempt that
  does not wait: the bytes are appended to its queue when the queue has room, and
  otherwise the queue is left as it is and \<open>go h.unregisterClient\<close> is started for it.
  The order of the range is any order of the room's members; the members that are
  attempted have open queues.
\<close>

theorem C2_broadcast_once_per_member:
  assumes ord: "\<forall>cs. conversations h (ConversationID b) = Some cs \<longrightarrow> ranges cs ord"
    and opn: "\<forall>c. member_of (conversations h) (ConversationID b) c \<and> ExcludeClient b \<noteq> Some c
                \<longrightarrow> \<not> closed (send h c)"
  shows "\<exists>tr h'. broadcastMessage marshal ord b h = Inr (tr, h') \<and>
      length (filter (\<lambda>e. e = JSONMarshal) tr) = 1 \<and>
      clients h' = clients h \<and> conversations h' = conversations h \<and>
      (\<forall>c. ExcludeClient b = Some c \<longrightarrow> send h' c = send h c \<and> (\<forall>d. Sent c d \<notin> set tr)) \<and>
      (case marshal (Message b) of
         None \<Rightarrow> tr = [JSONMarshal] \<and> h' = h
       | Some data \<Rightarrow>
           (\<forall>c. member_of (conversations h) (ConversationID b) c \<and> ExcludeClient b \<noteq> Some c \<longrightarrow>
              (if length (buf (send h c)) < sendBufferSize
               then Sent c data \<in> set tr \<and> send h' c = (send h c)\<lparr>buf := buf (send h c) @ [data]\<rparr>
               else LogChannelFull c \<in> set tr \<and> GoUnregisterClient c \<in> set tr \<and>
                    c \<in> set (go_unregister h') \<and> send h' c = send h c)))"
proof (cases "marshal (Message b)")
  case None
  then show ?thesis by (simp add: broadcastMessage_def)
next
  case (Some data)
  show ?thesis
  proof (cases "conversations h (ConversationID b)")
    case None
    with Some show ?thesis by (simp add: broadcastMessage_def member_of_def)
  next
    case (Some cs)
    with ord have r: "distinct ord" "set ord = cs" by (simp_all add: ranges_def)
    have mem: "member_of (conversations h) (ConversationID b) c \<longleftrightarrow> c \<in> set ord" for c
      using Some r by (simp add: member_of_def)
    have o: "\<forall>c\<in>set ord. ExcludeClient b \<noteq> Some c \<longrightarrow> \<not> closed (send h c)"
      using opn mem by blast
    let ?tr = "[JSONMarshal] @ concat (map (\<lambda>c. if ExcludeClient b = Some c then []
                                 else if length (buf (send h c)) < sendBufferSize then [Sent c data]
                                 else [LogChannelFull c, GoUnregisterClient c]) ord)"
    let ?h' = "h\<lparr>send := (\<lambda>c. if c \<in> set ord \<and> ExcludeClient b \<noteq> Some c \<and> length (buf (send h c)) < sendBufferSize
                         then (send h c)\<lparr>buf := buf (send h c) @ [data]\<rparr> else send h c),
            go_unregister := go_unregister h @
               filter (\<lambda>c. ExcludeClient b \<noteq> Some c \<and> \<not> length (buf (send h c)) < sendBufferSize) ord\<rparr>"
    have run: "broadcastMessage marshal ord b h = Inr (?tr, ?h')"
      using \<open>marshal (Message b) = Some data\<close> Some
      by (simp add: broadcastMessage_def broadcast_loop_closed_form[OF r(1) o])
    have once: "length (filter (\<lambda>e. e = JSONMarshal) ?tr) = 1"
      by (simp add: filter_concat comp_def)
    have excl: "\<forall>c. ExcludeClient b = Some c \<longrightarrow> send ?h' c = send h c \<and> (\<forall>d. Sent c d \<notin> set ?tr)"
      by (auto split: if_splits)
    have att: "\<forall>c. member_of (conversations h) (ConversationID b) c \<and> ExcludeClient b \<noteq> Some c \<longrightarrow>
              (if length (buf (send h c)) < sendBufferSize
               then Sent c data \<in> set ?tr \<and> send ?h' c = (send h c)\<lparr>buf := buf (send h c) @ [data]\<rparr>
               else LogChannelFull c \<in> set ?tr \<and> GoUnregisterClient c \<in> set ?tr \<and>
                    c \<in> set (go_unregister ?h') \<and> send ?h' c = send h c)"
      unfolding mem by auto
    show ?thesis
      apply (rule exI[of _ ?tr], rule exI[of _ ?h'])
      apply (intro conjI)
           apply (rule run)
          apply (rule once)
         apply simp
        apply simp
       apply (rule excl)
      apply (simp only: \<open>marshal (Message b) = Some data\<close> option.case)
      apply (rule att)
      done
  qed
qed

theorem C2_broadcast_once_per_member_witness:
  "ranges {conn_B, conn_A} [conn_A, conn_B] \<and>
   \<not> closed (send room7 conn_B) \<and>
   (\<exists>tr h'. broadcastMessage marshal_ex [conn_A, conn_B]
        \<lparr>ConversationID = 7, UserID = 0, Message = Text ''hi'', ExcludeClient = Some conn_A\<rparr> room7 = Inr (tr, h') \<and>
      length (filter (\<lambda>e. e = JSONMarshal) tr) = 1 \<and>
      send h' conn_A = send room7 conn_A \<and>
      Sent conn_B ''hi'' \<in> set tr)"
proof -
  let ?b = "\<lparr>ConversationID = 7, UserID = 0, Message = Text ''hi'', ExcludeClient = Some conn_A\<rparr>"
  have r: "ranges {conn_B, conn_A} [conn_A, conn_B]"
    using conns_distinct by (auto simp: ranges_def)
  have ord: "\<forall>cs. conversations room7 (ConversationID ?b) = Some cs \<longrightarrow> ranges cs [conn_A, conn_B]"
    using r by (simp add: room7_tables)
  have opn: "\<forall>c. member_of (conversations room7) (ConversationID ?b) c \<and> ExcludeClient ?b \<noteq> Some c
                \<longrightarrow> \<not> closed (send room7 c)"
    by (simp add: room7_tables make_chan_def)
  have m: "member_of (conversations room7) (ConversationID ?b) conn_B \<and> ExcludeClient ?b \<noteq> Some conn_B"
    using conns_distinct by (simp add: room7_tables member_of_def)
  have l: "length (buf (send room7 conn_B)) < sendBufferSize"
    by (simp add: room7_tables make_chan_def sendBufferSize_def)
  from C2_broadcast_once_per_member[OF ord opn, of marshal_ex]
  obtain tr h' where
    "broadcastMessage marshal_ex [conn_A, conn_B] ?b room7 = Inr (tr, h')"
    "length (filter (\<lambda>e. e = JSONMarshal) tr) = 1"
    "\<forall>c. ExcludeClient ?b = Some c \<longrightarrow> send h' c = send room7 c \<and> (\<forall>d. Sent c d \<notin> set tr)"
    "\<forall>c. member_of (conversations room7) (ConversationID ?b) c \<and> ExcludeClient ?b \<noteq> Some c \<longrightarrow>
              (if length (buf (send room7 c)) < sendBufferSize
               then Sent c ''hi'' \<in> set tr \<and> send h' c = (send room7 c)\<lparr>buf := buf (send room7 c) @ [''hi'']\<rparr>
               else LogChannelFull c \<in> set tr \<and> GoUnregisterClient c \<in> set tr \<and>
                    c \<in> set (go_unregister h') \<and> send h' c = send room7 c)"
    by auto
  with m l r show ?thesis
    by (intro conjI exI[of _ tr] exI[of _ h']) (auto simp: room7_tables make_chan_def)
qed

text \<open>
  The claim as stated fails on an event that does not serialise: \<open>conn_B\<close> is a
  registered member of room 7 and is not the excluded connection, and the broadcast
  ends after the marshal call without an attempt on its queue.
\<close>

theorem C2_counterexample:
  "member_of (conversations room7) 7 conn_B \<and>
   broadcastMessage marshal_ex [conn_A, conn_B]
      \<lparr>ConversationID = 7, UserID = 0, Message = Unserialisable, ExcludeClient = Some conn_A\<rparr> room7
     = Inr ([JSONMarshal], room7)"
  by (simp add: broadcastMessage_def room7_tables member_of_def)


lemma to_user_loop_closed_form:
  assumes "distinct ord" "\<forall>c\<in>set ord. \<not> closed (send h c)"
  shows "to_user_loop data ord (tr, h) =
     Inr (tr @ map (\<lambda>c. if length (buf (send h c)) < sendBufferSize then Sent c data
                          else LogChannelFull c) ord,
          h\<lparr>send := (\<lambda>c. if c \<in> set ord \<and> length (buf (send h c)) < sendBufferSize
                         then (send h c)\<lparr>buf := buf (send h c) @ [data]\<rparr> else send h c)\<rparr>)"
  using assms
proof (induction ord arbitrary: tr h)
  case Nil
  then show ?case by simp
next
  case (Cons client rest)
  have nin: "client \<notin> set rest" and d: "distinct rest" using Cons.prems(1) by auto
  have op: "\<not> closed (send h client)" using Cons.prems(2) by simp
  show ?case
  proof (cases "length (buf (send h client)) < sendBufferSize")
    case True
    let ?h1 = "h\<lparr>send := (send h)(client := (send h client)\<lparr>buf := buf (send h client) @ [data]\<rparr>)\<rparr>"
    have pre: "\<forall>c\<in>set rest. \<not> closed (send ?h1 c)"
      using Cons.prems(2) nin by auto
    have m: "map (\<lambda>c. if length (buf (send ?h1 c)) < sendBufferSize then Sent c data
                          else LogChannelFull c) rest
           = map (\<lambda>c. if length (buf (send h c)) < sendBufferSize then Sent c data
                          else LogChannelFull c) rest"
      using nin by (intro map_cong) auto
    have s: "(\<lambda>c. if c \<in> set rest \<and> length (buf (send ?h1 c)) < sendBufferSize
                         then (send ?h1 c)\<lparr>buf := buf (send ?h1 c) @ [data]\<rparr> else send ?h1 c)
          = (\<lambda>c. if c \<in> set (client # rest) \<and> length (buf (send h c)) < sendBufferSize
                         then (send h c)\<lparr>buf := buf (send h c) @ [data]\<rparr> else send h c)"
      using nin True by (auto simp: fun_eq_iff)
    have st: "?h1\<lparr>send := sf\<rparr> = h\<lparr>send := sf\<rparr>" for sf
      by simp
    note IH = Cons.IH[OF d pre, of "tr @ [Sent client data]", unfolded m s st]
    show ?thesis
      using True op by (simp add: chan_try_send_def IH)
  next
    case full: False
    have pre: "\<forall>c\<in>set rest. \<not> closed (send h c)"
      using Cons.prems(2) by auto
    have s: "(\<lambda>c. if c \<in> set rest \<and> length (buf (send h c)) < sendBufferSize
                         then (send h c)\<lparr>buf := buf (send h c) @ [data]\<rparr> else send h c)
          = (\<lambda>c. if c \<in> set (client # rest) \<and> length (buf (send h c)) < sendBufferSize
                         then (send h c)\<lparr>buf := buf (send h c) @ [data]\<rparr> else send h c)"
      using full by (auto simp: fun_eq_iff)
    note IH = Cons.IH[OF d pre, of "tr @ [LogChannelFull client]", unfolded s]
    show ?thesis
      using full op by (simp add: chan_try_send_def IH)
  qed
qed


lemma unregisterClient_removes:
  assumes "unregisterClient c h = Inr h'" "identity_keyed h" "room_non_nil h"
  shows "\<not> member_of (clients h') u c" "\<not> member_of (conversations h') r c"
proof -
  show "\<not> member_of (clients h') u c"
    using assms(2) unfolding identity_keyed_def
    by (auto simp: unregisterClient_member_clients[OF assms(1)])
  show "\<not> member_of (conversations h') r c"
    using assms(3) unfolding room_non_nil_def
    by (simp add: unregisterClient_member_conversations[OF assms(1)]) blast
qed

lemma unregisterClient_closes:
  assumes "unregisterClient c h = Inr h'" "is_registered h c"
  shows "closed (send h' c)"
  using assms by (simp add: unregisterClient_send[OF assms(1)])

lemma hub_inv_cong:
  assumes "hub_inv h" "clients h' = clients h" "conversations h' = conversations h"
    "\<forall>c. closed (send h' c) = closed (send h c)"
  shows "hub_inv h'"
proof -
  have c: "closed (send h' c) = closed (send h c)" for c using assms(4) by blast
  show ?thesis
    using assms(1)
    unfolding hub_inv_def tables_inv_def room_in_identity_def room_non_nil_def identity_keyed_def
      registered_open_def
    by (simp only: assms(2) assms(3) c) blast
qed

lemma hub_inv_room7: "hub_inv room7"
  unfolding room7_def
  by (intro registerClient_hub_inv hub_inv_NewHub)
     (simp_all add: registerClient_send NewHub_def fresh_def make_chan_def)

lemma room7_full_fields:
  "clients room7_full = clients room7" "conversations room7_full = conversations room7"
  "send room7_full = (send room7)(conn_A := full_chan)" "go_unregister room7_full = []"
  by (simp_all add: room7_full_def room7_tables)

lemma hub_inv_room7_full: "hub_inv room7_full"
  by (rule hub_inv_cong[OF hub_inv_room7])
     (simp_all add: room7_full_fields room7_tables full_chan_def make_chan_def)

lemma full_chan_full: "\<not> length (buf full_chan) < sendBufferSize" "\<not> closed full_chan"
  by (simp_all add: full_chan_def sendBufferSize_def)

text \<open>
  C5 (as amended).  On the room path a member whose queue is full when its turn comes
  keeps its queue as it was (the event is dropped) and \<open>go h.unregisterClient\<close> is
  started for it; when that goroutine runs, right after the broadcast, the connection
  is in no entry of either table and its queue is closed.  On the direct path
  \<open>BroadcastToUser\<close> goes through all connections of the identity and appends the
  bytes where there is room; where the queue is full it drops the event and logs, and
  that is all: both tables and the list of started goroutines are as before.
\<close>

theorem C5_full_queue_paths:
  "(hub_inv h \<and> marshal (Message b) = Some data \<and>
    conversations h (ConversationID b) = Some cs \<and> ranges cs ord \<and>
    c \<in> cs \<and> ExcludeClient b \<noteq> Some c \<and> \<not> length (buf (send h c)) < sendBufferSize
    \<longrightarrow> (\<exists>tr h'. broadcastMessage marshal ord b h = Inr (tr, h') \<and>
           send h' c = send h c \<and> c \<in> set (go_unregister h') \<and>
           (\<exists>h''. sys_step marshal (GoUnregister c) h' = Inr ([], h'') \<and>
              (\<forall>u. \<not> member_of (clients h'') u c) \<and>
              (\<forall>r. \<not> member_of (conversations h'') r c) \<and>
              closed (send h'' c)))) \<and>
   (hub_inv h \<and> marshal m = Some data \<and> clients h u = Some us \<and> ranges us ord'
    \<longrightarrow> (\<exists>tr h'. BroadcastToUser marshal ord' u m h = Inr (tr, h') \<and>
           clients h' = clients h \<and> conversations h' = conversations h \<and>
           go_unregister h' = go_unregister h \<and>
           (\<forall>x. send h' x =
              (if x \<in> us \<and> length (buf (send h x)) < sendBufferSize
               then (send h x)\<lparr>buf := buf (send h x) @ [data]\<rparr> else send h x)) \<and>
           (\<forall>x\<in>us. \<not> length (buf (send h x)) < sendBufferSize \<longrightarrow> LogChannelFull x \<in> set tr)))"
proof (intro conjI impI)
  assume a: "hub_inv h \<and> marshal (Message b) = Some data \<and>
    conversations h (ConversationID b) = Some cs \<and> ranges cs ord \<and>
    c \<in> cs \<and> ExcludeClient b \<noteq> Some c \<and> \<not> length (buf (send h c)) < sendBufferSize"
  then have inv: "hub_inv h" and r: "distinct ord" "set ord = cs" and c: "c \<in> set ord"
    by (simp_all add: ranges_def)
  have reg: "is_registered h x" if "x \<in> cs" for x
  proof -
    from that a have "member_of (conversations h) (ConversationID b) x" by (simp add: member_of_def)
    with inv show ?thesis
      unfolding hub_inv_def tables_inv_def room_in_identity_def is_registered_def by blast
  qed
  have opn: "\<not> closed (send h x)" if "x \<in> cs" for x
    using reg[OF that] inv unfolding hub_inv_def registered_open_def is_registered_def by blast
  then have o: "\<forall>x\<in>set ord. ExcludeClient b \<noteq> Some x \<longrightarrow> \<not> closed (send h x)"
    using r by simp
  let ?tr = "[JSONMarshal] @ concat (map (\<lambda>c. if ExcludeClient b = Some c then []
                                 else if length (buf (send h c)) < sendBufferSize then [Sent c data]
                                 else [LogChannelFull c, GoUnregisterClient c]) ord)"
  let ?h' = "h\<lparr>send := (\<lambda>c. if c \<in> set ord \<and> ExcludeClient b \<noteq> Some c \<and> length (buf (send h c)) < sendBufferSize
                         then (send h c)\<lparr>buf := buf (send h c) @ [data]\<rparr> else send h c),
            go_unregister := go_unregister h @
               filter (\<lambda>c. ExcludeClient b \<noteq> Some c \<and> \<not> length (buf (send h c)) < sendBufferSize) ord\<rparr>"
  have run: "broadcastMessage marshal ord b h = Inr (?tr, ?h')"
    using a by (simp add: broadcastMessage_def broadcast_loop_closed_form[OF r(1) o])
  have pend: "c \<in> set (go_unregister ?h')" using a c by simp
  have same: "send ?h' c = send h c" using a by simp
  let ?g = "?h'\<lparr>go_unregister := remove1 c (go_unregister ?h')\<rparr>"
  have inv': "hub_inv ?g"
    by (rule hub_inv_cong[OF inv]) simp_all
  from unregisterClient_hub_inv[OF inv', of c]
  obtain h'' where u: "unregisterClient c ?g = Inr h''" by blast
  have ik: "identity_keyed ?g" "room_non_nil ?g"
    using inv' by (simp_all add: hub_inv_def tables_inv_def)
  have regg: "is_registered ?g c" using reg[of c] a by (simp add: is_registered_def)
  have step: "sys_step marshal (GoUnregister c) ?h' = Inr ([], h'')"
    using pend u by (simp add: sys_step_def)
  have gone: "\<forall>u. \<not> member_of (clients h'') u c" "\<forall>r. \<not> member_of (conversations h'') r c"
    "closed (send h'' c)"
    using unregisterClient_removes[OF u ik] unregisterClient_closes[OF u regg] by blast+
  show "\<exists>tr h'. broadcastMessage marshal ord b h = Inr (tr, h') \<and>
           send h' c = send h c \<and> c \<in> set (go_unregister h') \<and>
           (\<exists>h''. sys_step marshal (GoUnregister c) h' = Inr ([], h'') \<and>
              (\<forall>u. \<not> member_of (clients h'') u c) \<and>
              (\<forall>r. \<not> member_of (conversations h'') r c) \<and>
              closed (send h'' c))"
    apply (rule exI[of _ ?tr], rule exI[of _ ?h'])
    apply (intro conjI)
       apply (rule run)
      apply (rule same)
     apply (rule pend)
    apply (rule exI[of _ h''])
    apply (intro conjI)
       apply (rule step)
      apply (rule gone(1))
     apply (rule gone(2))
    apply (rule gone(3))
    done
next
  assume a: "hub_inv h \<and> marshal m = Some data \<and> clients h u = Some us \<and> ranges us ord'"
  then have inv: "hub_inv h" and r: "distinct ord'" "set ord' = us"
    by (simp_all add: ranges_def)
  have opn: "\<forall>x\<in>set ord'. \<not> closed (send h x)"
  proof
    fix x assume "x \<in> set ord'"
    with r a have "member_of (clients h) u x" by (simp add: member_of_def)
    with inv show "\<not> closed (send h x)"
      unfolding hub_inv_def registered_open_def by blast
  qed
  let ?tr = "[JSONMarshal] @ map (\<lambda>c. if length (buf (send h c)) < sendBufferSize then Sent c data
                          else LogChannelFull c) ord'"
  let ?h' = "h\<lparr>send := (\<lambda>c. if c \<in> set ord' \<and> length (buf (send h c)) < sendBufferSize
                         then (send h c)\<lparr>buf := buf (send h c) @ [data]\<rparr> else send h c)\<rparr>"
  have run: "BroadcastToUser marshal ord' u m h = Inr (?tr, ?h')"
    using a by (simp add: BroadcastToUser_def to_user_loop_closed_form[OF r(1) opn])
  have logs: "\<forall>x\<in>us. \<not> length (buf (send h x)) < sendBufferSize \<longrightarrow> LogChannelFull x \<in> set ?tr"
    using r by auto
  show "\<exists>tr h'. BroadcastToUser marshal ord' u m h = Inr (tr, h') \<and>
           clients h' = clients h \<and> conversations h' = conversations h \<and>
           go_unregister h' = go_unregister h \<and>
           (\<forall>x. send h' x =
              (if x \<in> us \<and> length (buf (send h x)) < sendBufferSize
               then (send h x)\<lparr>buf := buf (send h x) @ [data]\<rparr> else send h x)) \<and>
           (\<forall>x\<in>us. \<not> length (buf (send h x)) < sendBufferSize \<longrightarrow> LogChannelFull x \<in> set tr)"
    apply (rule exI[of _ ?tr], rule exI[of _ ?h'])
    apply (intro conjI)
         apply (rule run)
        apply simp
       apply simp
      apply simp
     apply (simp add: r)
    apply (rule logs)
    done
qed

theorem C5_full_queue_paths_witness:
  "hub_inv room7_full \<and> ranges {conn_B, conn_A} [conn_A, conn_B] \<and> ranges {conn_A} [conn_A] \<and>
   \<not> length (buf (send room7_full conn_A)) < sendBufferSize \<and>
   (\<exists>tr h'. broadcastMessage marshal_ex [conn_A, conn_B]
        \<lparr>ConversationID = 7, UserID = 0, Message = Text ''hi'', ExcludeClient = None\<rparr> room7_full = Inr (tr, h') \<and>
      send h' conn_A = send room7_full conn_A \<and> conn_A \<in> set (go_unregister h') \<and>
      (\<exists>h''. sys_step marshal_ex (GoUnregister conn_A) h' = Inr ([], h'') \<and>
          \<not> member_of (clients h'') 1 conn_A \<and> \<not> member_of (conversations h'') 7 conn_A \<and>
          closed (send h'' conn_A))) \<and>
   (\<exists>tr h'. BroadcastToUser marshal_ex [conn_A] 1 (Text ''hi'') room7_full = Inr (tr, h') \<and>
      clients h' = clients room7_full \<and> conversations h' = conversations room7_full \<and>
      go_unregister h' = go_unregister room7_full \<and> LogChannelFull conn_A \<in> set tr)"
proof -
  let ?b = "\<lparr>ConversationID = 7, UserID = 0, Message = Text ''hi'', ExcludeClient = None\<rparr>"
  have r: "ranges {conn_B, conn_A} [conn_A, conn_B]" "ranges {conn_A} [conn_A]"
    using conns_distinct by (auto simp: ranges_def)
  have f: "\<not> length (buf (send room7_full conn_A)) < sendBufferSize"
    by (simp add: room7_full_fields full_chan_full)
  have p1: "hub_inv room7_full \<and> marshal_ex (Message ?b) = Some ''hi'' \<and>
    conversations room7_full (ConversationID ?b) = Some {conn_B, conn_A} \<and>
    ranges {conn_B, conn_A} [conn_A, conn_B] \<and> conn_A \<in> {conn_B, conn_A} \<and>
    ExcludeClient ?b \<noteq> Some conn_A \<and> \<not> length (buf (send room7_full conn_A)) < sendBufferSize"
    using r f by (simp add: hub_inv_room7_full room7_full_fields room7_tables)
  have p2: "hub_inv room7_full \<and> marshal_ex (Text ''hi'') = Some ''hi'' \<and>
    clients room7_full 1 = Some {conn_A} \<and> ranges {conn_A} [conn_A]"
    using r by (simp add: hub_inv_room7_full room7_full_fields room7_tables)
  note T = C5_full_queue_paths[of room7_full marshal_ex ?b "''hi''" "{conn_B, conn_A}"
      "[conn_A, conn_B]" conn_A "Text ''hi''" 1 "{conn_A}" "[conn_A]"]
  from T p1 have A: "\<exists>tr h'. broadcastMessage marshal_ex [conn_A, conn_B] ?b room7_full = Inr (tr, h') \<and>
      send h' conn_A = send room7_full conn_A \<and> conn_A \<in> set (go_unregister h') \<and>
      (\<exists>h''. sys_step marshal_ex (GoUnregister conn_A) h' = Inr ([], h'') \<and>
          \<not> member_of (clients h'') 1 conn_A \<and> \<not> member_of (conversations h'') 7 conn_A \<and>
          closed (send h'' conn_A))"
    by blast
  from T p2 have B: "\<exists>tr h'. BroadcastToUser marshal_ex [conn_A] 1 (Text ''hi'') room7_full = Inr (tr, h') \<and>
      clients h' = clients room7_full \<and> conversations h' = conversations room7_full \<and>
      go_unregister h' = go_unregister room7_full \<and> LogChannelFull conn_A \<in> set tr"
    using f by blast
  from hub_inv_room7_full r f A B show ?thesis by (intro conjI)
qed

text \<open>
  The claim as stated fails on the direct path: \<open>conn_A\<close> is registered, its queue is
  full, and \<open>BroadcastToUser\<close> to its identity drops the event, logs, and returns the
  state it was given: \<open>conn_A\<close> is still in both tables and no goroutine was started
  to unregister it.
\<close>

theorem C5_counterexample:
  "\<not> length (buf (send room7_full conn_A)) < sendBufferSize \<and>
   BroadcastToUser marshal_ex [conn_A] 1 (Text ''hi'') room7_full
     = Inr ([JSONMarshal, LogChannelFull conn_A], room7_full) \<and>
   is_registered room7_full conn_A \<and> in_room room7_full conn_A \<and>
   go_unregister room7_full = []"
  by (simp add: BroadcastToUser_def room7_full_fields room7_tables chan_try_send_def
      full_chan_full is_registered_def in_room_def member_of_def conn_A_def)


lemma broadcast_loop_tables:
  "broadcast_loop data ex ord (tr, h) = Inr (tr', h') \<Longrightarrow>
     clients h' = clients h \<and> conversations h' = conversations h \<and>
     hub_ctx_done h' = hub_ctx_done h \<and> hub_stopped h' = hub_stopped h"
proof (induction ord arbitrary: tr h)
  case Nil
  then show ?case by simp
next
  case (Cons client rest)
  have e: "(ex \<noteq> None \<and> Some client = ex) = (ex = Some client)" by auto
  note step = broadcast_loop.simps(2)[of data ex client rest tr h, unfolded e]
  show ?case
  proof (cases "ex = Some client")
    case True
    with Cons.prems have "broadcast_loop data ex rest (tr, h) = Inr (tr', h')"
      by simp
    then show ?thesis by (rule Cons.IH)
  next
    case False
    note p = Cons.prems[unfolded step[unfolded if_not_P[OF False]]]
    show ?thesis
    proof (cases "chan_try_send data (send h client)")
      case (Inl e)
      with p show ?thesis by simp
    next
      case (Inr r)
      show ?thesis
      proof (cases r)
        case None
        with Inr p
        have "broadcast_loop data ex rest
                (tr @ [LogChannelFull client, GoUnregisterClient client],
                 h\<lparr>go_unregister := go_unregister h @ [client]\<rparr>) = Inr (tr', h')"
          by simp
        from Cons.IH[OF this] show ?thesis by simp
      next
        case (Some ch)
        with Inr p
        have "broadcast_loop data ex rest
                (tr @ [Sent client data], h\<lparr>send := (send h)(client := ch)\<rparr>) = Inr (tr', h')"
          by simp
        from Cons.IH[OF this] show ?thesis by simp
      qed
    qed
  qed
qed

lemma broadcastMessage_tables:
  assumes "broadcastMessage marshal ord b h = Inr (tr, h')"
  shows "clients h' = clients h \<and> conversations h' = conversations h \<and>
     hub_ctx_done h' = hub_ctx_done h \<and> hub_stopped h' = hub_stopped h"
proof (cases "marshal (Message b)")
  case None
  with assms show ?thesis by (simp add: broadcastMessage_def)
next
  case (Some data)
  show ?thesis
  proof (cases "conversations h (ConversationID b)")
    case None
    with Some assms show ?thesis by (simp add: broadcastMessage_def)
  next
    case cs: (Some cs)
    with Some assms
    have "broadcast_loop data (ExcludeClient b) ord ([JSONMarshal], h) = Inr (tr, h')"
      by (simp add: broadcastMessage_def)
    then show ?thesis by (rule broadcast_loop_tables)
  qed
qed

lemma to_user_loop_tables:
  "to_user_loop data ord (tr, h) = Inr (tr', h') \<Longrightarrow>
     clients h' = clients h \<and> conversations h' = conversations h \<and>
     go_unregister h' = go_unregister h \<and>
     hub_ctx_done h' = hub_ctx_done h \<and> hub_stopped h' = hub_stopped h"
proof (induction ord arbitrary: tr h)
  case Nil
  then show ?case by simp
next
  case (Cons client rest)
  show ?case
  proof (cases "chan_try_send data (send h client)")
    case (Inl e)
    with Cons.prems show ?thesis by simp
  next
    case (Inr r)
    show ?thesis
    proof (cases r)
      case None
      with Inr Cons.prems
      have "to_user_loop data rest (tr @ [LogChannelFull client], h) = Inr (tr', h')" by simp
      then show ?thesis by (rule Cons.IH)
    next
      case (Some ch)
      with Inr Cons.prems
      have "to_user_loop data rest
              (tr @ [Sent client data], h\<lparr>send := (send h)(client := ch)\<rparr>) = Inr (tr', h')"
        by simp
      from Cons.IH[OF this] show ?thesis by simp
    qed
  qed
qed

lemma BroadcastToUser_tables:
  assumes "BroadcastToUser marshal ord u m h = Inr (tr, h')"
  shows "clients h' = clients h \<and> conversations h' = conversations h \<and>
     go_unregister h' = go_unregister h \<and>
     hub_ctx_done h' = hub_ctx_done h \<and> hub_stopped h' = hub_stopped h"
proof (cases "marshal m")
  case None
  with assms show ?thesis by (simp add: BroadcastToUser_def)
next
  case (Some data)
  show ?thesis
  proof (cases "clients h u")
    case None
    with Some assms show ?thesis by (simp add: BroadcastToUser_def)
  next
    case cs: (Some cs)
    with Some assms have "to_user_loop data ord ([JSONMarshal], h) = Inr (tr, h')"
      by (simp add: BroadcastToUser_def)
    then show ?thesis by (rule to_user_loop_tables)
  qed
qed

lemma WritePump_send_tables:
  "WritePump_send c a b h = (tr, go_on, h') \<Longrightarrow>
     clients h' = clients h \<and> conversations h' = conversations h \<and>
     go_unregister h' = go_unregister h \<and>
     hub_ctx_done h' = hub_ctx_done h \<and> hub_stopped h' = hub_stopped h"
  by (auto simp: WritePump_send_def set_buf_def split: list.splits if_splits)

lemma make_chan_room: "length (buf make_chan) < sendBufferSize" "\<not> closed make_chan"
  by (simp_all add: make_chan_def sendBufferSize_def)

lemma room7_dropped_fields:
  "clients room7_dropped = clients room7" "conversations room7_dropped = conversations room7"
  "send room7_dropped conn_A = full_chan" "go_unregister room7_dropped = [conn_A]"
  "hub_stopped room7_dropped = False"
  using conns_distinct
  by (simp_all add: room7_dropped_def room7_full_def room7_def registerClient_def Let_def
      NewHub_def fresh_def)

lemma room7_registered:
  "is_registered room7_dropped conn_A" "in_room room7_dropped conn_A"
  by (simp_all add: is_registered_def in_room_def member_of_def room7_dropped_fields room7_tables
      conn_A_def)

text \<open>
  The claim as stated fails: the command loop broadcasts \<open>hello7\<close> to room 7 while the
  queue of \<open>conn_A\<close> is full, which starts a goroutine and leaves the tables alone; the
  loop is done with the command.  The tables change later, when that goroutine runs
  \<open>unregisterClient\<close>: this step is not taken by the command loop.
\<close>

theorem C3_counterexample:
  "sys_step marshal_ex (Loop (BroadcastCmd hello7 [conn_A, conn_B])) room7_full
     = Inr ([JSONMarshal, LogChannelFull conn_A, GoUnregisterClient conn_A, Sent conn_B ''hi''],
            room7_dropped) \<and>
   is_registered room7_dropped conn_A \<and> in_room room7_dropped conn_A \<and>
   actor_of (GoUnregister conn_A :: ex_msg step) \<noteq> CommandLoop \<and>
   (case sys_step marshal_ex (GoUnregister conn_A) room7_dropped of
      Inl e \<Rightarrow> False
    | Inr (tr, h') \<Rightarrow> \<not> is_registered h' conn_A \<and> \<not> in_room h' conn_A \<and>
                      clients h' \<noteq> clients room7_dropped \<and>
                      conversations h' \<noteq> conversations room7_dropped)"
proof -
  have b: "sys_step marshal_ex (Loop (BroadcastCmd hello7 [conn_A, conn_B])) room7_full
     = Inr ([JSONMarshal, LogChannelFull conn_A, GoUnregisterClient conn_A, Sent conn_B ''hi''],
            room7_dropped)"
    using conns_distinct
    by (simp add: sys_step_def Run_step_def broadcastMessage_def hello7_def room7_dropped_def
        room7_full_fields room7_tables chan_try_send_def full_chan_full make_chan_room)
       (simp add: room7_full_def room7_def registerClient_def Let_def NewHub_def fresh_def
        make_chan_def)
  have "hub_inv room7_dropped"
    by (rule hub_inv_cong[OF hub_inv_room7])
       (simp_all add: room7_dropped_fields,
        simp add: room7_dropped_def room7_full_def room7_tables full_chan_def make_chan_def)
  then have inv: "hub_inv (room7_dropped\<lparr>go_unregister := remove1 conn_A (go_unregister room7_dropped)\<rparr>)"
    by (rule hub_inv_cong) simp_all
  from unregisterClient_hub_inv[OF inv, of conn_A]
  obtain h' where u: "unregisterClient conn_A
      (room7_dropped\<lparr>go_unregister := remove1 conn_A (go_unregister room7_dropped)\<rparr>) = Inr h'"
    by blast
  then have step: "sys_step marshal_ex (GoUnregister conn_A) room7_dropped = Inr ([], h')"
    by (simp add: sys_step_def room7_dropped_fields)
  have ik: "identity_keyed (room7_dropped\<lparr>go_unregister := remove1 conn_A (go_unregister room7_dropped)\<rparr>)"
    "room_non_nil (room7_dropped\<lparr>go_unregister := remove1 conn_A (go_unregister room7_dropped)\<rparr>)"
    using inv by (simp_all add: hub_inv_def tables_inv_def)
  have gone: "\<not> is_registered h' conn_A" "\<not> in_room h' conn_A"
    using unregisterClient_removes[OF u ik] by (simp_all add: is_registered_def in_room_def)
  with room7_registered have ne: "clients h' \<noteq> clients room7_dropped"
    "conversations h' \<noteq> conversations room7_dropped"
    by (auto simp: is_registered_def in_room_def)
  from b room7_registered gone ne show ?thesis by (simp add: step)
qed


lemma unregister_room_idem:
  "unregister_room c (unregister_room c h) = unregister_room c h"
proof (cases "conversationID c \<noteq> uuid_Nil")
  case False
  then show ?thesis by (simp add: unregister_room_def)
next
  case nn: True
  show ?thesis
  proof (cases "conversations h (conversationID c)")
    case None
    with nn show ?thesis by (simp add: unregister_room_def)
  next
    case (Some cs)
    show ?thesis
    proof (cases "cs - {c} = {}")
      case True
      with nn Some show ?thesis by (simp add: unregister_room_def remove_member_def)
    next
      case False
      have "((conversations h)(conversationID c \<mapsto> cs - {c}))(conversationID c \<mapsto> cs - {c})
          = (conversations h)(conversationID c \<mapsto> cs - {c})"
        by simp
      with nn Some False show ?thesis
        by (simp add: unregister_room_def remove_member_def)
    qed
  qed
qed

lemma unregisterClient_twice:
  assumes "unregisterClient c h = Inr h1"
  shows "unregisterClient c h1 = Inr h1"
proof -
  have nr: "\<not> is_registered h1 c"
    by (simp add: is_registered_def unregisterClient_member_clients[OF assms])
  from assms obtain g where g: "h1 = unregister_room c g"
    by (auto simp: unregisterClient_eq split: if_splits)
  from nr have "unregisterClient c h1 = Inr (unregister_room c h1)"
    by (simp add: unregisterClient_eq)
  also have "unregister_room c h1 = h1"
    unfolding g by (rule unregister_room_idem)
  finally show ?thesis .
qed

lemma close_all_closed_form:
  assumes "distinct cs" "\<forall>c\<in>set cs. \<not> closed (send h c)"
  shows "close_all cs h =
     Inr (h\<lparr>send := (\<lambda>c. if c \<in> set cs then (send h c)\<lparr>closed := True\<rparr> else send h c)\<rparr>)"
  using assms
proof (induction cs arbitrary: h)
  case Nil
  then show ?case by simp
next
  case (Cons client rest)
  let ?h1 = "h\<lparr>send := (send h)(client := (send h client)\<lparr>closed := True\<rparr>)\<rparr>"
  have nin: "client \<notin> set rest" and d: "distinct rest" using Cons.prems(1) by auto
  have pre: "\<forall>c\<in>set rest. \<not> closed (send ?h1 c)" using Cons.prems(2) nin by auto
  have s: "(\<lambda>c. if c \<in> set rest then (send ?h1 c)\<lparr>closed := True\<rparr> else send ?h1 c)
         = (\<lambda>c. if c \<in> set (client # rest) then (send h c)\<lparr>closed := True\<rparr> else send h c)"
    using nin by (auto simp: fun_eq_iff)
  have st: "?h1\<lparr>send := sf\<rparr> = h\<lparr>send := sf\<rparr>" for sf by simp
  note IH = Cons.IH[OF d pre, unfolded s st]
  from Cons.prems(2) show ?case by (simp add: chan_close_def IH)
qed

lemma ranges_table_distinct:
  assumes "ranges_table t ord" "\<forall>u c. member_of t u c \<longrightarrow> userID c = u"
  shows "distinct (map snd ord)" "set (map snd ord) = {c. member_of t (userID c) c}"
proof -
  from assms have "inj_on snd (set ord)"
    unfolding ranges_table_def by (intro inj_onI) (metis prod.collapse)
  with assms(1) show "distinct (map snd ord)"
    by (simp add: distinct_map ranges_table_def)
  show "set (map snd ord) = {c. member_of t (userID c) c}"
    using assms unfolding ranges_table_def by force
qed

lemma state_same_flag: "hub_ctx_done h \<Longrightarrow> h\<lparr>hub_ctx_done := True\<rparr> = h"
  by (cases h) simp

text \<open>
  C9.  A second \<open>unregisterClient\<close> for a connection that a first one has handled
  returns the state it is given and does not panic, so the queue is not closed again.
  \<open>Shutdown\<close> twice is \<open>Shutdown\<close> once.  When the loop takes the cancelled context,
  \<open>cleanup\<close> closes the queue of every registered connection (these and no others
  become closed) and empties both tables, without a panic; from then on another
  \<open>Shutdown\<close>, any further turn of the loop and any goroutine that was started to
  unregister a connection leave the state as it is, so nothing is closed twice.
\<close>

theorem C9_idempotent:
  "(unregisterClient c h = Inr h1 \<longrightarrow> unregisterClient c h1 = Inr h1) \<and>
   Shutdown (Shutdown h) = Shutdown h \<and>
   (hub_inv h \<and> \<not> hub_stopped h \<and> ranges_table (clients h) ord \<longrightarrow>
      (\<exists>h2. sys_step marshal (Loop (CtxDone ord)) (Shutdown h) = Inr ([], h2) \<and>
         clients h2 = Map.empty \<and> conversations h2 = Map.empty \<and>
         (\<forall>x. closed (send h2 x) \<longleftrightarrow> closed (send h x) \<or> is_registered h x) \<and>
         sys_step marshal CallShutdown h2 = Inr ([], h2) \<and>
         (\<forall>cmd. sys_step marshal (Loop cmd) h2 = Inr ([], h2)) \<and>
         (\<forall>x. \<exists>h3. sys_step marshal (GoUnregister x) h2 = Inr ([], h3) \<and>
                send h3 = send h2 \<and> clients h3 = Map.empty \<and> conversations h3 = Map.empty)))"
proof (intro conjI impI)
  assume "unregisterClient c h = Inr h1"
  then show "unregisterClient c h1 = Inr h1" by (rule unregisterClient_twice)
next
  show "Shutdown (Shutdown h) = Shutdown h" by (simp add: Shutdown_def)
next
  assume a: "hub_inv h \<and> \<not> hub_stopped h \<and> ranges_table (clients h) ord"
  then have ik: "\<forall>u c. member_of (clients h) u c \<longrightarrow> userID c = u"
    and ro: "\<forall>u c. member_of (clients h) u c \<longrightarrow> \<not> closed (send h c)"
    by (simp_all add: hub_inv_def identity_keyed_def registered_open_def)
  from a have rt: "ranges_table (clients h) ord" by simp
  note d = ranges_table_distinct[OF rt ik]
  have opn: "\<forall>c\<in>set (map snd ord). \<not> closed (send (Shutdown h) c)"
    using d(2) ro by (auto simp: Shutdown_def)
  let ?h2 = "h\<lparr>hub_ctx_done := True, hub_stopped := True, clients := Map.empty,
      conversations := Map.empty,
      send := (\<lambda>c. if c \<in> set (map snd ord) then (send h c)\<lparr>closed := True\<rparr> else send h c)\<rparr>"
  have step: "sys_step marshal (Loop (CtxDone ord)) (Shutdown h) = Inr ([], ?h2)"
    using a by (simp add: sys_step_def Run_step_def cleanup_def
        close_all_closed_form[OF d(1) opn]) (simp add: Shutdown_def cong: if_cong)
  have cl: "\<forall>x. closed (send ?h2 x) \<longleftrightarrow> closed (send h x) \<or> is_registered h x"
    using d(2) by (auto simp: is_registered_def)
  have sh: "sys_step marshal CallShutdown ?h2 = Inr ([], ?h2)"
    by (simp add: sys_step_def Shutdown_def)
  have lp: "\<forall>cmd. sys_step marshal (Loop cmd) ?h2 = Inr ([], ?h2)"
    by (simp add: sys_step_def Run_step_def)
  have go: "\<exists>h3. sys_step marshal (GoUnregister x) ?h2 = Inr ([], h3) \<and>
                send h3 = send ?h2 \<and> clients h3 = Map.empty \<and> conversations h3 = Map.empty" for x
    by (simp add: sys_step_def unregisterClient_def unregister_room_def)
  show "\<exists>h2. sys_step marshal (Loop (CtxDone ord)) (Shutdown h) = Inr ([], h2) \<and>
         clients h2 = Map.empty \<and> conversations h2 = Map.empty \<and>
         (\<forall>x. closed (send h2 x) \<longleftrightarrow> closed (send h x) \<or> is_registered h x) \<and>
         sys_step marshal CallShutdown h2 = Inr ([], h2) \<and>
         (\<forall>cmd. sys_step marshal (Loop cmd) h2 = Inr ([], h2)) \<and>
         (\<forall>x. \<exists>h3. sys_step marshal (GoUnregister x) h2 = Inr ([], h3) \<and>
                send h3 = send h2 \<and> clients h3 = Map.empty \<and> conversations h3 = Map.empty)"
    apply (rule exI[of _ ?h2])
    apply (intro conjI)
          apply (rule step)
         apply simp
        apply simp
       apply (rule cl)
      apply (rule sh)
     apply (rule lp)
    using go apply blast
    done
qed

lemma room7_ranges_table: "ranges_table (clients room7) [(1, conn_A), (2, conn_B)]"
  by (auto simp: ranges_table_def room7_tables member_of_def split: if_splits)

theorem C9_idempotent_witness:
  "(\<exists>h1. unregisterClient conn_A room7 = Inr h1 \<and> unregisterClient conn_A h1 = Inr h1) \<and>
   hub_inv room7 \<and> \<not> hub_stopped room7 \<and>
   ranges_table (clients room7) [(1, conn_A), (2, conn_B)] \<and>
   (\<exists>h2. sys_step marshal_ex (Loop (CtxDone [(1, conn_A), (2, conn_B)])) (Shutdown room7) = Inr ([], h2) \<and>
      clients h2 = Map.empty \<and> conversations h2 = Map.empty \<and>
      closed (send h2 conn_A) \<and> \<not> closed (send h2 conn_C) \<and>
      sys_step marshal_ex CallShutdown h2 = Inr ([], h2))"
proof -
  have ns: "\<not> hub_stopped room7"
    by (simp add: room7_def registerClient_def Let_def NewHub_def)
  from unregisterClient_hub_inv[OF hub_inv_room7, of conn_A]
  obtain h1 where h1: "unregisterClient conn_A room7 = Inr h1" by blast
  note T = C9_idempotent[of conn_A room7 h1 "[(1, conn_A), (2, conn_B)]" marshal_ex]
  from T h1 have A: "\<exists>h1. unregisterClient conn_A room7 = Inr h1 \<and> unregisterClient conn_A h1 = Inr h1"
    by blast
  from T hub_inv_room7 ns room7_ranges_table
  obtain h2 where h2:
    "sys_step marshal_ex (Loop (CtxDone [(1, conn_A), (2, conn_B)])) (Shutdown room7) = Inr ([], h2)"
    "clients h2 = Map.empty" "conversations h2 = Map.empty"
    "\<forall>x. closed (send h2 x) \<longleftrightarrow> closed (send room7 x) \<or> is_registered room7 x"
    "sys_step marshal_ex CallShutdown h2 = Inr ([], h2)"
    by blast
  have "closed (send h2 conn_A)" "\<not> closed (send h2 conn_C)"
    using h2(4) conns_distinct
    by (simp_all add: is_registered_def member_of_def room7_tables make_chan_def conn_A_def conn_C_def)
  with h2 have B: "\<exists>h2. sys_step marshal_ex (Loop (CtxDone [(1, conn_A), (2, conn_B)])) (Shutdown room7) = Inr ([], h2) \<and>
      clients h2 = Map.empty \<and> conversations h2 = Map.empty \<and>
      closed (send h2 conn_A) \<and> \<not> closed (send h2 conn_C) \<and>
      sys_step marshal_ex CallShutdown h2 = Inr ([], h2)"
    by blast
  from A hub_inv_room7 ns room7_ranges_table B show ?thesis by (intro conjI)
qed







lemma room7_wire: "wire room7 = (\<lambda>c. [])" "hub_stopped room7 = False"
  by (simp_all add: room7_def registerClient_def Let_def NewHub_def fresh_def)

lemma same_but_queue_refl: "same_but_queue c h h"
  by (simp add: same_but_queue_def)

lemma same_but_queue_trans:
  "same_but_queue c h h1 \<Longrightarrow> same_but_queue c h1 h2 \<Longrightarrow> same_but_queue c h h2"
  by (simp add: same_but_queue_def)

lemma same_but_queue_enqueue: "same_but_queue c h (enqueue c data h)"
  by (simp add: same_but_queue_def enqueue_def)

lemma same_but_queue_updateActivity: "same_but_queue c h (updateActivity c t h)"
  by (simp add: same_but_queue_def updateActivity_def)

lemma select_pick_None:
  "select_pick ready prefer = None \<longleftrightarrow> \<not> ready CaseSend \<and> \<not> ready CaseTimer \<and> \<not> ready CaseDone"
proof
  assume "select_pick ready prefer = None"
  then have "\<forall>k\<in>set (prefer @ [CaseSend, CaseTimer, CaseDone]). \<not> ready k"
    by (simp only: select_pick_def find_None_iff) blast
  then show "\<not> ready CaseSend \<and> \<not> ready CaseTimer \<and> \<not> ready CaseDone" by simp
next
  assume n: "\<not> ready CaseSend \<and> \<not> ready CaseTimer \<and> \<not> ready CaseDone"
  have "\<not> ready k" for k using n by (cases k) simp_all
  then show "select_pick ready prefer = None"
    by (simp only: select_pick_def find_None_iff) blast
qed

lemma select_pick_Some:
  "select_pick ready prefer = Some k \<Longrightarrow> ready k"
  by (auto simp: select_pick_def find_Some_iff)

text \<open>\<open>SendMessage\<close> on an open queue: it never panics, and it is blocked exactly when the
  message serialises and no case of the select can proceed.\<close>

lemma SendMessage_open:
  assumes "\<not> closed (send h c)"
  shows "\<exists>res h'. SendMessage marshal c msg env h = Inr (res, h') \<and> same_but_queue c h h' \<and>
           (res = SendBlocked \<longleftrightarrow> (\<exists>d. marshal msg = Inr d) \<and> select_blocked c env h) \<and>
           (res = SendBlocked \<longrightarrow> h' = h) \<and>
           (res = SendNil \<longrightarrow> (\<exists>data. marshal msg = Inr data \<and> h' = enqueue c data h \<and>
                                length (buf (send h c)) < sendBufferSize))"
proof (cases "marshal msg")
  case (Inl err)
  then show ?thesis by (simp add: SendMessage_def same_but_queue_refl)
next
  case Some: (Inr data)
  let ?ready = "\<lambda>k. case k of CaseSend \<Rightarrow> send_ready (send h c)
                               | CaseTimer \<Rightarrow> timer_ready (fst env)
                               | CaseDone \<Rightarrow> ctx_done h c"
  show ?thesis
  proof (cases "select_pick ?ready (snd env)")
    case None
    then have "select_blocked c env h"
      by (simp add: select_pick_None select_blocked_def)
    with None Some show ?thesis by (simp add: SendMessage_def same_but_queue_refl)
  next
    case pick: (Some k)
    from select_pick_Some[OF pick] have rk: "?ready k" .
    then have nb: "\<not> select_blocked c env h"
      by (cases k) (simp_all add: select_blocked_def)
    show ?thesis
    proof (cases k)
      case CaseSend
      with rk assms have "length (buf (send h c)) < sendBufferSize" by (simp add: send_ready_def)
      with CaseSend pick Some assms nb show ?thesis
        by (simp add: SendMessage_def same_but_queue_enqueue)
    next
      case CaseTimer
      with pick Some nb show ?thesis by (simp add: SendMessage_def same_but_queue_refl)
    next
      case CaseDone
      with pick Some nb show ?thesis by (simp add: SendMessage_def same_but_queue_refl)
    qed
  qed
qed

lemma error_reply_open:
  assumes "\<not> closed (send h c)"
  shows "\<exists>st h'. error_reply marshal c text env tr h = (tr @ [SendErrorCall c text], st, h') \<and>
           same_but_queue c h h' \<and> (st = None \<or> st = Some Stuck) \<and>
           (st = Some Stuck \<longleftrightarrow> (\<exists>d. marshal (error_event c text) = Inr d) \<and> select_blocked c env h) \<and>
           (\<forall>data. marshal (error_event c text) = Inr data \<and>
               length (buf (send h c)) < sendBufferSize \<and> \<not> timer_ready (fst env) \<and> \<not> ctx_done h c
               \<longrightarrow> st = None \<and> h' = enqueue c data h)"
proof -
  from SendMessage_open[OF assms, of marshal "error_event c text" env]
  obtain res h' where s: "SendMessage marshal c (error_event c text) env h = Inr (res, h')"
    and q: "same_but_queue c h h'"
    and b: "res = SendBlocked \<longleftrightarrow> (\<exists>d. marshal (error_event c text) = Inr d) \<and> select_blocked c env h"
    by blast
  have e: "error_reply marshal c text env tr h =
      (tr @ [SendErrorCall c text], (if res = SendBlocked then Some Stuck else None), h')"
    using s by (cases res) (simp_all add: error_reply_def SendError_def error_event_def)
  have sent: "res = SendNil \<and> h' = enqueue c data h"
    if m: "marshal (error_event c text) = Inr data"
      and room: "length (buf (send h c)) < sendBufferSize"
      and nt: "\<not> timer_ready (fst env)" and nd: "\<not> ctx_done h c" for data
  proof -
    let ?ready = "\<lambda>k. case k of CaseSend \<Rightarrow> send_ready (send h c)
                               | CaseTimer \<Rightarrow> timer_ready (fst env)
                               | CaseDone \<Rightarrow> ctx_done h c"
    have "select_pick ?ready (snd env) = Some CaseSend"
    proof (cases "select_pick ?ready (snd env)")
      case None
      with room show ?thesis by (simp add: select_pick_None send_ready_def)
    next
      case (Some k)
      from select_pick_Some[OF Some] nt nd have "k = CaseSend" by (cases k) simp_all
      with Some show ?thesis by simp
    qed
    with m assms s show ?thesis by (simp add: SendMessage_def)
  qed
  show ?thesis
    apply (rule exI[of _ "if res = SendBlocked then Some Stuck else None"], rule exI[of _ h'])
    using e q b sent by auto
qed


lemma select_blocked_updateActivity:
  "select_blocked c env (updateActivity c t h) = select_blocked c env h"
  by (simp add: select_blocked_def updateActivity_def)

lemma ReadPump_body_malformed:
  "unmarshal (payload r) = None \<Longrightarrow>
   ReadPump_body unmarshal marshal c r h =
     error_reply marshal c ''Invalid message format'' (sel1 r) [] (updateActivity c (at r) h)"
  by (simp add: ReadPump_body_def Let_def)

lemma ReadPump_body_unknown:
  assumes "unmarshal (payload r) = Some msg"
    "in_Type msg \<noteq> ''message''" "in_Type msg \<noteq> ''typing''" "in_Type msg \<noteq> ''ping''"
  shows "ReadPump_body unmarshal marshal c r h =
     error_reply marshal c (''Error processing message: '' @ ''unknown message type: '' @ in_Type msg)
       (sel2 r) [] (updateActivity c (at r) h)"
  using assms by (simp add: ReadPump_body_def Let_def handleIncomingMessage_def)

lemma error_reply_never_returns:
  "error_reply marshal c text env tr h = (tr', st, h') \<Longrightarrow> st \<noteq> Some Returned"
  by (auto simp: error_reply_def split: sum.splits prod.splits send_result.splits)

lemma ReadPump_body_never_returns:
  assumes "ReadPump_body unmarshal marshal c r h = (tr, st, h')"
  shows "st \<noteq> Some Returned"
proof (cases "unmarshal (payload r)")
  case None
  with assms show ?thesis
    by (auto simp: ReadPump_body_def Let_def dest: error_reply_never_returns)
next
  case (Some msg)
  show ?thesis
  proof (cases "handleIncomingMessage marshal c msg r (updateActivity c (at r) h)")
    case (Inl e)
    with Some assms show ?thesis by (auto simp: ReadPump_body_def Let_def)
  next
    case (Inr x)
    obtain tr1 res h2 where x: "x = (tr1, res, h2)" by (cases x) auto
    with Inr Some assms show ?thesis
      by (cases res) (auto simp: ReadPump_body_def Let_def dest: error_reply_never_returns)
  qed
qed

lemma ReadPump_loop_frame:
  assumes "\<not> ctx_done h c" "at r \<le> readDeadline h c" "length (payload r) \<le> maxMessageSize"
  shows "ReadPump_loop unmarshal marshal c (Frame r # es) h =
     (case ReadPump_body unmarshal marshal c r h of
        (tr, Some st, h2) \<Rightarrow> (tr, st, h2)
      | (tr, None, h2) \<Rightarrow>
          (case ReadPump_loop unmarshal marshal c es h2 of (tr2, st2, h3) \<Rightarrow> (tr @ tr2, st2, h3)))"
  using assms by (subst ReadPump_loop.simps) (simp add: not_less)

lemma room7_conn:
  "ctx_done room7 = (\<lambda>c. False)" "conn_closed room7 = (\<lambda>c. False)"
  "readDeadline room7 = (\<lambda>c. 0)" "lastActivity room7 = (\<lambda>c. 0)"
  by (simp_all add: room7_def registerClient_def Let_def NewHub_def fresh_def)

lemma marshal_ws_error:
  "marshal_ws (error_event c errorMsg) = Inr (''error:'' @ errorMsg)"
  by (simp add: marshal_ws_def error_event_def NewWebSocketMessage_def MessageTypeError_def)

lemma ReadPump_body_effects:
  assumes "ReadPump_body unmarshal marshal c r h = (tr, st, h')"
  shows "\<forall>e\<in>set tr. (\<exists>msg. e = HandleMessage c msg) \<or> e = HandleTyping c \<or> (\<exists>t. e = SendErrorCall c t)"
  using assms
  by (auto simp: ReadPump_body_def Let_def error_reply_def handleIncomingMessage_def
      split: option.splits sum.splits prod.splits send_result.splits if_splits)

lemma ReadPump_loop_induct2 [case_names step]:
  assumes "\<And>unmarshal marshal c es h.
     (\<And>r es1 h1 tr h2. \<not> ctx_done h c \<Longrightarrow> ReadMessage c es h = (Some r, es1, h1) \<Longrightarrow>
         ReadPump_body unmarshal marshal c r h1 = (tr, None, h2) \<Longrightarrow> P unmarshal marshal c es1 h2)
     \<Longrightarrow> P unmarshal marshal c es h"
  shows "P unmarshal marshal c es h"
proof (induction unmarshal marshal c es h rule: ReadPump_loop.induct)
  case (1 unmarshal marshal c es h)
  show ?case
  proof (rule assms)
    fix r es1 h1 tr h2
    assume "\<not> ctx_done h c" "ReadMessage c es h = (Some r, es1, h1)"
      "ReadPump_body unmarshal marshal c r h1 = (tr, None, h2)"
    then show "P unmarshal marshal c es1 h2"
      by (intro "1.IH"[of "Some r" "(es1, h1)" r es1 h1 tr "(None, h2)" None h2]) simp_all
  qed
qed

lemma ReadPump_loop_effects:
  "ReadPump_loop unmarshal marshal c es h = (tr, st, h') \<Longrightarrow>
   \<forall>e\<in>set tr. (\<exists>msg. e = HandleMessage c msg) \<or> e = HandleTyping c \<or> (\<exists>t. e = SendErrorCall c t)"
proof (induction unmarshal marshal c es h arbitrary: tr st h' rule: ReadPump_loop_induct2)
  case (step unmarshal marshal c es h)
  show ?case
  proof (cases "ctx_done h c")
    case True
    with step.prems show ?thesis by (subst (asm) ReadPump_loop.simps) simp
  next
    case nd: False
    obtain ro es1 h1 where rm: "ReadMessage c es h = (ro, es1, h1)" by (cases "ReadMessage c es h") auto
    show ?thesis
    proof (cases ro)
      case None
      with nd rm step.prems show ?thesis by (subst (asm) ReadPump_loop.simps) simp
    next
      case (Some r)
      obtain tr1 so h2 where b: "ReadPump_body unmarshal marshal c r h1 = (tr1, so, h2)"
        by (cases "ReadPump_body unmarshal marshal c r h1") auto
      note be = ReadPump_body_effects[OF b]
      show ?thesis
      proof (cases so)
        case st1: (Some st1)
        with nd rm Some b step.prems have "tr = tr1"
          by (subst (asm) ReadPump_loop.simps) simp
        with be show ?thesis by simp
      next
        case None
        obtain tr2 st2 h3 where l: "ReadPump_loop unmarshal marshal c es1 h2 = (tr2, st2, h3)"
          by (cases "ReadPump_loop unmarshal marshal c es1 h2") auto
        with nd rm Some b None step.prems have "tr = tr1 @ tr2"
          by (subst (asm) ReadPump_loop.simps) simp
        moreover note step.IH[OF nd rm[unfolded Some] b[unfolded None] l]
        ultimately show ?thesis using be by auto
      qed
    qed
  qed
qed

lemma ReadPump_loop_total_status:
  "ReadPump_loop unmarshal marshal c (ReadError # es) h = ([], Returned, h)"
  by (subst ReadPump_loop.simps) simp

lemma SendMessage_cases:
  assumes "SendMessage marshal c msg env h = Inr (res, h')"
  shows "(res \<noteq> SendNil \<and> h' = h) \<or>
         (res = SendNil \<and> (\<exists>data. marshal msg = Inr data \<and> h' = enqueue c data h))"
  using assms
  by (auto simp: SendMessage_def split: sum.splits option.splits sel_case.splits if_splits)







lemma select_pick_only:
  assumes "ready k" "\<And>k'. ready k' \<Longrightarrow> k' = k"
  shows "select_pick ready prefer = Some k"
proof (cases "select_pick ready prefer")
  case None
  then have "\<not> ready k" by (cases k) (simp_all add: select_pick_None)
  with assms(1) show ?thesis by simp
next
  case (Some k')
  from select_pick_Some[OF Some] assms(2) have "k' = k" by blast
  with Some show ?thesis by simp
qed

text \<open>
  C10.  \<open>SendMessage\<close> (and so \<open>SendError\<close>) and \<open>Hub.SendToClient\<close> on a
  connection whose queue is open and full, with a live context: as long as less than
  5 seconds have passed since the select was entered the caller is blocked, and once 5
  seconds have passed the call returns the timeout error.  In both cases the state is
  the one it was given: the event is not queued, the connection stays in the tables,
  and no unregistration is started.  For the read pump this means that a frame that
  does not decode, received while the pump's own queue is full, keeps the pump in
  \<open>SendError\<close> for 5 seconds, after which the loop goes on.
\<close>

theorem C10_blocking_send:
  assumes full: "\<not> closed (send h c)" "\<not> length (buf (send h c)) < sendBufferSize"
    and live: "\<not> ctx_done h c"
  shows "(marshal msg = Inr data \<longrightarrow>
           SendMessage marshal c msg (waited, pref) h =
             Inr (if 5 * Second \<le> waited then SendErr ''timeout sending message to client''
                  else SendBlocked, h)) \<and>
         (marshal' msg' = Inr data' \<longrightarrow>
           SendToClient marshal' c msg' (waited, pref) h =
             Inr (if 5 * Second \<le> waited then SendErr ''timeout sending to client''
                  else SendBlocked, h)) \<and>
         (unmarshal (payload r) = None \<and>
          marshal (error_event c ''Invalid message format'') = Inr data \<longrightarrow>
           ReadPump_body unmarshal marshal c r h =
             ([SendErrorCall c ''Invalid message format''],
              (if 5 * Second \<le> fst (sel1 r) then None else Some Stuck),
              updateActivity c (at r) h))"
proof (intro conjI impI)
  have nr: "\<not> send_ready (send h c)" using full by (simp add: send_ready_def)
  let ?ready = "\<lambda>w k. case k of CaseSend \<Rightarrow> send_ready (send h c)
                               | CaseTimer \<Rightarrow> timer_ready w
                               | CaseDone \<Rightarrow> ctx_done h c"
  have pick: "select_pick (?ready w) p = (if 5 * Second \<le> w then Some CaseTimer else None)" for w p
  proof (cases "5 * Second \<le> w")
    case True
    have "select_pick (?ready w) p = Some CaseTimer"
    proof (rule select_pick_only)
      show "?ready w CaseTimer" using True by (simp add: timer_ready_def)
      fix k' assume "?ready w k'"
      with nr live show "k' = CaseTimer" by (cases k') simp_all
    qed
    with True show ?thesis by simp
  next
    case False
    with nr live show ?thesis by (simp add: select_pick_None timer_ready_def)
  qed
  {
    assume m: "marshal msg = Inr data"
    show "SendMessage marshal c msg (waited, pref) h =
             Inr (if 5 * Second \<le> waited then SendErr ''timeout sending message to client''
                  else SendBlocked, h)"
      using m by (simp add: SendMessage_def pick)
  }
  {
    assume m: "unmarshal (payload r) = None \<and>
          marshal (error_event c ''Invalid message format'') = Inr data"
    let ?h1 = "updateActivity c (at r) h"
    have e: "send ?h1 = send h" "ctx_done ?h1 = ctx_done h" by (simp_all add: updateActivity_def)
    have "SendMessage marshal c (error_event c ''Invalid message format'') (sel1 r) ?h1 =
             Inr (if 5 * Second \<le> fst (sel1 r) then SendErr ''timeout sending message to client''
                  else SendBlocked, ?h1)"
      using m by (simp add: SendMessage_def e pick)
    then show "ReadPump_body unmarshal marshal c r h =
             ([SendErrorCall c ''Invalid message format''],
              (if 5 * Second \<le> fst (sel1 r) then None else Some Stuck),
              updateActivity c (at r) h)"
      using m by (simp add: ReadPump_body_def Let_def error_reply_def SendError_def error_event_def)
  }
  {
    assume m: "marshal' msg' = Inr data'"
    let ?ready' = "\<lambda>k. case k of CaseSend \<Rightarrow> send_ready (send h c)
                               | CaseTimer \<Rightarrow> timer_ready waited
                               | CaseDone \<Rightarrow> False"
    have pick': "select_pick ?ready' pref = (if 5 * Second \<le> waited then Some CaseTimer else None)"
    proof (cases "5 * Second \<le> waited")
      case True
      have "select_pick ?ready' pref = Some CaseTimer"
      proof (rule select_pick_only)
        show "?ready' CaseTimer" using True by (simp add: timer_ready_def)
        fix k' assume "?ready' k'"
        with nr show "k' = CaseTimer" by (cases k') simp_all
      qed
      with True show ?thesis by simp
    next
      case False
      with nr show ?thesis by (simp add: select_pick_None timer_ready_def)
    qed
    show "SendToClient marshal' c msg' (waited, pref) h =
             Inr (if 5 * Second \<le> waited then SendErr ''timeout sending to client''
                  else SendBlocked, h)"
      using m by (simp add: SendToClient_def pick')
  }
qed

theorem C10_blocking_send_witness:
  "\<not> closed (send room7_full conn_A) \<and> \<not> length (buf (send room7_full conn_A)) < sendBufferSize \<and>
   \<not> ctx_done room7_full conn_A \<and>
   SendMessage marshal_ws conn_A (error_event conn_A ''Invalid message format'') (4 * Second, [])
       room7_full = Inr (SendBlocked, room7_full) \<and>
   SendMessage marshal_ws conn_A (error_event conn_A ''Invalid message format'') (5 * Second, [CaseSend])
       room7_full = Inr (SendErr ''timeout sending message to client'', room7_full) \<and>
   SendToClient marshal_ex_err conn_A (Text ''hi'') (5 * Second, []) room7_full
     = Inr (SendErr ''timeout sending to client'', room7_full) \<and>
   is_registered room7_full conn_A \<and> go_unregister room7_full = []"
proof -
  have f: "\<not> closed (send room7_full conn_A)"
    "\<not> length (buf (send room7_full conn_A)) < sendBufferSize"
    by (simp_all add: room7_full_fields full_chan_full)
  have l: "\<not> ctx_done room7_full conn_A"
    by (simp add: room7_full_def room7_conn)
  have m: "marshal_ws (error_event conn_A ''Invalid message format'') = Inr ''error:Invalid message format''"
    by (simp add: marshal_ws_error)
  have m': "marshal_ex_err (Text ''hi'') = Inr ''hi''" by simp
  have r: "is_registered room7_full conn_A" "go_unregister room7_full = []"
    by (simp_all add: is_registered_def member_of_def room7_full_fields room7_tables conn_A_def)
  have s: "\<not> 5 * Second \<le> 4 * Second" by (simp add: Second_def)
  from C10_blocking_send[OF f l, where marshal = marshal_ws and waited = "4 * Second" and pref = "[]" and msg = "error_event conn_A ''Invalid message format''" and data = "''error:Invalid message format''", THEN conjunct1] m s
  have a: "SendMessage marshal_ws conn_A (error_event conn_A ''Invalid message format'') (4 * Second, [])
       room7_full = Inr (SendBlocked, room7_full)"
    by simp
  from C10_blocking_send[OF f l, where marshal = marshal_ws and waited = "5 * Second"
      and pref = "[CaseSend]" and msg = "error_event conn_A ''Invalid message format''" and data = "''error:Invalid message format''", THEN conjunct1] m m'
  have b: "SendMessage marshal_ws conn_A (error_event conn_A ''Invalid message format'') (5 * Second, [CaseSend])
       room7_full = Inr (SendErr ''timeout sending message to client'', room7_full)"
    by simp
  from C10_blocking_send[OF f l, where waited = "5 * Second"
      and pref = "[]" and marshal' = marshal_ex_err and msg' = "Text ''hi''" and data' = "''hi''",
      THEN conjunct2, THEN conjunct1] m'
  have c: "SendToClient marshal_ex_err conn_A (Text ''hi'') (5 * Second, []) room7_full
     = Inr (SendErr ''timeout sending to client'', room7_full)"
    by simp
  from f l a b c r show ?thesis by (intro conjI)
qed


lemma broadcast_loop_channel:
  "broadcast_loop data ex ord (tr, h) = Inr (tr', h') \<Longrightarrow> unregister h' = unregister h"
proof (induction ord arbitrary: tr h)
  case Nil
  then show ?case by simp
next
  case (Cons client rest)
  show ?case
  proof (cases "ex \<noteq> None \<and> Some client = ex")
    case True
    with Cons.prems have "broadcast_loop data ex rest (tr, h) = Inr (tr', h')" by simp
    from Cons.IH[OF this] show ?thesis .
  next
    case False
    show ?thesis
    proof (cases "chan_try_send data (send h client)")
      case (Inl e)
      with False Cons.prems show ?thesis by (auto split: if_splits)
    next
      case (Inr opt)
      show ?thesis
      proof (cases opt)
        case None
        with Inr False Cons.prems
        have "broadcast_loop data ex rest (tr @ [LogChannelFull client, GoUnregisterClient client],
                   h\<lparr>go_unregister := go_unregister h @ [client]\<rparr>) = Inr (tr', h')"
          by (auto split: if_splits)
        from Cons.IH[OF this] show ?thesis by simp
      next
        case (Some ch)
        with Inr False Cons.prems
        have "broadcast_loop data ex rest (tr @ [Sent client data], h\<lparr>send := (send h)(client := ch)\<rparr>)
            = Inr (tr', h')"
          by (auto split: if_splits)
        from Cons.IH[OF this] show ?thesis by simp
      qed
    qed
  qed
qed

lemma to_user_loop_channel:
  "to_user_loop data ord (tr, h) = Inr (tr', h') \<Longrightarrow> unregister h' = unregister h"
proof (induction ord arbitrary: tr h)
  case Nil
  then show ?case by simp
next
  case (Cons client rest)
  show ?case
  proof (cases "chan_try_send data (send h client)")
    case (Inl e)
    with Cons.prems show ?thesis by simp
  next
    case (Inr opt)
    show ?thesis
    proof (cases opt)
      case None
      with Inr Cons.prems
      have "to_user_loop data rest (tr @ [LogChannelFull client], h) = Inr (tr', h')" by simp
      from Cons.IH[OF this] show ?thesis by simp
    next
      case (Some ch)
      with Inr Cons.prems
      have "to_user_loop data rest (tr @ [Sent client data], h\<lparr>send := (send h)(client := ch)\<rparr>)
          = Inr (tr', h')"
        by simp
      from Cons.IH[OF this] show ?thesis by simp
    qed
  qed
qed

lemma unregisterClient_channel:
  "unregisterClient c h = Inr h' \<Longrightarrow>
     unregister h' = unregister h \<and> hub_stopped h' = hub_stopped h \<and>
     hub_ctx_done h' = hub_ctx_done h \<and> go_unregister h' = go_unregister h"
  by (auto simp: unregisterClient_eq unregister_room_def split: if_splits option.splits)

text \<open>Once \<open>Run\<close> has returned, no step of the system receives from \<open>unregister\<close>.\<close>

lemma stopped_hub_step:
  assumes "hub_stopped h" "sys_step marshal st h = Inr (tr, h')"
  shows "hub_stopped h' \<and> unregister h' = unregister h"
proof (cases st)
  case (Loop cmd)
  with assms show ?thesis by (simp add: sys_step_def Run_step_def)
next
  case (GoUnregister c)
  with assms show ?thesis
    by (auto simp: sys_step_def split: if_splits sum.splits dest!: unregisterClient_channel)
next
  case (WriteSend c a b)
  with assms show ?thesis
    by (auto simp: sys_step_def WritePump_send_def set_buf_def split: list.splits if_splits)
next
  case (ToUser u m ord)
  with assms have b: "BroadcastToUser marshal ord u m h = Inr (tr, h')" by (simp add: sys_step_def)
  then have "unregister h' = unregister h"
    by (auto simp: BroadcastToUser_def split: option.splits dest: to_user_loop_channel)
  with BroadcastToUser_tables[OF b] assms(1) show ?thesis by simp
next
  case CallShutdown
  with assms show ?thesis by (auto simp: sys_step_def Shutdown_def)
qed

lemma stopped_hub_exec:
  "hub_stopped h \<Longrightarrow> exec marshal sts (tr, h) = Inr (tr', h') \<Longrightarrow>
     hub_stopped h' \<and> unregister h' = unregister h"
proof (induction sts arbitrary: tr h)
  case Nil
  then show ?case by simp
next
  case (Cons st sts)
  from Cons.prems(2) obtain tr1 h1 where s: "sys_step marshal st h = Inr (tr1, h1)"
    and e: "exec marshal sts (tr @ tr1, h1) = Inr (tr', h')"
    by (auto split: sum.splits)
  from stopped_hub_step[OF Cons.prems(1) s] Cons.IH[OF _ e] show ?case by simp
qed

lemma ReadPump_defer_iff:
  "ReadPump_defer c h =
     (if length (unregister h) < unregisterBufferSize
      then Some ([SubmitUnregister c, ConnClose c, CtxCancel c] @
                   (if hasHandler c then [HandleDisconnect c] else []),
                 h\<lparr>unregister := unregister h @ [c],
                    conn_closed := (conn_closed h)(c := True), ctx_done := (ctx_done h)(c := True)\<rparr>)
      else None)"
  by (simp add: ReadPump_defer_def unregister_send_def)

lemma stopped_hub_blocks_forever:
  assumes "hub_stopped h" "ReadPump_defer c h = None" "exec marshal sts (tr, h) = Inr (tr', h')"
  shows "ReadPump_defer c h' = None"
  using stopped_hub_exec[OF assms(1,3)] assms(2) by (simp add: ReadPump_defer_iff split: if_splits)

text \<open>When the loop of the read pump has ended and \<open>unregister\<close> has room, the deferred
  function runs to its end: the connection is sent to the hub once and the router is
  told once.\<close>

lemma ReadPump_exit_once:
  assumes l: "ReadPump_loop unmarshal marshal c es (SetReadDeadline c (now + pongWait) h) = (tr0, st0, h1)"
    and ns: "st0 \<noteq> Stuck"
    and room: "length (unregister h1) < unregisterBufferSize"
  shows "\<exists>tr h'. ReadPump unmarshal marshal c now es h = (tr, st0, h') \<and>
           tr = tr0 @ [SubmitUnregister c, ConnClose c, CtxCancel c] @
                  (if hasHandler c then [HandleDisconnect c] else []) \<and>
           count_list tr (SubmitUnregister c) = 1 \<and>
           count_list tr (HandleDisconnect c) = (if hasHandler c then 1 else 0) \<and>
           unregister h' = unregister h1 @ [c] \<and> conn_closed h' c \<and> ctx_done h' c"
proof -
  note eff = ReadPump_loop_effects[OF l]
  have n0: "SubmitUnregister c \<notin> set tr0" "HandleDisconnect c \<notin> set tr0"
    using eff by auto
  then have c0: "count_list tr0 (SubmitUnregister c) = 0" "count_list tr0 (HandleDisconnect c) = 0"
    by (simp_all add: count_list_0_iff)
  show ?thesis
    using l ns room c0 by (cases st0) (auto simp: ReadPump_def ReadPump_defer_iff)
qed


lemma stopped_hub_reached:
  "exec marshal [CallShutdown, Loop (CtxDone [])] ([], NewHub fresh) = Inr ([], stopped_hub)"
  by (simp add: sys_step_def Run_step_def Shutdown_def cleanup_def NewHub_def stopped_hub_def)

lemma defer_all_room:
  "length (unregister h) + length cs \<le> unregisterBufferSize \<Longrightarrow>
     \<exists>h'. defer_all cs h = Some h' \<and> unregister h' = unregister h @ cs \<and>
          hub_stopped h' = hub_stopped h \<and>
          (\<forall>c. c \<notin> set cs \<longrightarrow> ctx_done h' c = ctx_done h c \<and> conn_closed h' c = conn_closed h c)"
proof (induction cs arbitrary: h)
  case Nil
  then show ?case by simp
next
  case (Cons c cs)
  let ?h1 = "h\<lparr>unregister := unregister h @ [c],
               conn_closed := (conn_closed h)(c := True), ctx_done := (ctx_done h)(c := True)\<rparr>"
  from Cons.prems have room: "length (unregister h) < unregisterBufferSize" by simp
  from Cons.prems have "length (unregister ?h1) + length cs \<le> unregisterBufferSize" by simp
  from Cons.IH[OF this]
  obtain h' where d: "defer_all cs ?h1 = Some h'" and u: "unregister h' = unregister ?h1 @ cs"
    and s: "hub_stopped h' = hub_stopped ?h1"
    and o: "\<forall>x. x \<notin> set cs \<longrightarrow> ctx_done h' x = ctx_done ?h1 x \<and> conn_closed h' x = conn_closed ?h1 x"
    by blast
  have "defer_all (c # cs) h = Some h'" using room d by (simp add: ReadPump_defer_iff)
  moreover have "unregister h' = unregister h @ c # cs" using u by simp
  moreover have "hub_stopped h' = hub_stopped h" using s by simp
  moreover have "\<forall>x. x \<notin> set (c # cs) \<longrightarrow> ctx_done h' x = ctx_done h x \<and> conn_closed h' x = conn_closed h x"
    using o by simp
  ultimately show ?case by blast
qed

lemma hub_gone_fields:
  "defer_all waiting stopped_hub = Some hub_gone"
  "hub_stopped hub_gone" "unregister hub_gone = waiting" "length (unregister hub_gone) = 64"
  "\<not> ctx_done hub_gone conn_A" "\<not> conn_closed hub_gone conn_A"
proof -
  have l: "length waiting = 64" by (simp add: waiting_def)
  have n: "conn_A \<notin> set waiting" by (auto simp: waiting_def conn_A_def)
  have "length (unregister stopped_hub) + length waiting \<le> unregisterBufferSize"
    by (simp add: l stopped_hub_def NewHub_def unregisterBufferSize_def)
  from defer_all_room[OF this]
  obtain h' where d: "defer_all waiting stopped_hub = Some h'"
    and u: "unregister h' = unregister stopped_hub @ waiting"
    and s: "hub_stopped h' = hub_stopped stopped_hub"
    and o: "\<forall>c. c \<notin> set waiting \<longrightarrow> ctx_done h' c = ctx_done stopped_hub c \<and>
               conn_closed h' c = conn_closed stopped_hub c"
    by blast
  from d have g: "hub_gone = h'" by (simp add: hub_gone_def)
  show "defer_all waiting stopped_hub = Some hub_gone" using d g by simp
  show "hub_stopped hub_gone" using s g by (simp add: stopped_hub_def)
  show "unregister hub_gone = waiting" using u g by (simp add: stopped_hub_def NewHub_def)
  then show "length (unregister hub_gone) = 64" using l by simp
  show "\<not> ctx_done hub_gone conn_A" "\<not> conn_closed hub_gone conn_A"
    using o n g by (simp_all add: stopped_hub_def NewHub_def fresh_def)
qed

text \<open>
  C8.  The hub was shut down: \<open>Shutdown\<close> was called, \<open>Run\<close> has returned, and the read
  pumps of 64 connections have ended, so that the buffer of \<open>unregister\<close> is full.  Now
  the read of \<open>conn_A\<close> fails.  The loop of its read pump returns, so the deferred
  function starts, and it blocks in its first statement, \<open>c.hub.unregister <- c\<close>.
  Nothing after that statement has run: the connection is not closed, its context is
  not cancelled, and \<open>HandleDisconnect\<close> of the attached router was not called.  The
  command loop takes nothing from the channel any more, so this is how it stays.
\<close>

theorem C8_exit_blocked:
  "exec marshal_ex [CallShutdown, Loop (CtxDone [])] ([], NewHub fresh) = Inr ([], stopped_hub) \<and>
   defer_all waiting stopped_hub = Some hub_gone \<and>
   ReadPump_loop unmarshal_ex marshal_ws conn_A [ReadError] (SetReadDeadline conn_A pongWait hub_gone)
     = ([], Returned, SetReadDeadline conn_A pongWait hub_gone) \<and>
   ReadPump_defer conn_A (SetReadDeadline conn_A pongWait hub_gone) = None \<and>
   ReadPump unmarshal_ex marshal_ws conn_A 0 [ReadError] hub_gone
     = ([], Stuck, SetReadDeadline conn_A pongWait hub_gone) \<and>
   hasHandler conn_A \<and>
   \<not> conn_closed (SetReadDeadline conn_A pongWait hub_gone) conn_A \<and>
   \<not> ctx_done (SetReadDeadline conn_A pongWait hub_gone) conn_A \<and>
   sys_step marshal_ex (Loop UnregisterCmd) (SetReadDeadline conn_A pongWait hub_gone)
     = Inr ([], SetReadDeadline conn_A pongWait hub_gone)"
proof -
  let ?h = "SetReadDeadline conn_A pongWait hub_gone"
  have f: "hub_stopped ?h" "length (unregister ?h) = 64" "\<not> ctx_done ?h conn_A"
    "\<not> conn_closed ?h conn_A"
    by (simp_all add: SetReadDeadline_def hub_gone_fields(2,4,5,6))
  have l: "ReadPump_loop unmarshal_ex marshal_ws conn_A [ReadError] ?h = ([], Returned, ?h)"
    by (rule ReadPump_loop_total_status)
  have d: "ReadPump_defer conn_A ?h = None"
    by (simp add: ReadPump_defer_iff f unregisterBufferSize_def)
  have p: "ReadPump unmarshal_ex marshal_ws conn_A 0 [ReadError] hub_gone = ([], Stuck, ?h)"
    by (simp add: ReadPump_def l d)
  have s: "sys_step marshal_ex (Loop UnregisterCmd) ?h = Inr ([], ?h)"
    by (simp add: sys_step_def Run_step_def f)
  have hh: "hasHandler conn_A" by (simp add: conn_A_def)
  from stopped_hub_reached hub_gone_fields(1) l d p hh f(4) f(3) s show ?thesis by (intro conjI)
qed








lemma ReadMessage_fails:
  "ReadMessage c es h = (None, es1, h1) \<Longrightarrow>
     (es1 = [] \<and> (\<forall>ev\<in>set es. (\<exists>t. ev = Pong t) \<or> ev = Cancelled)) \<or>
     (\<exists>pre ev. es = pre @ ev # es1 \<and> read_fails_on h1 c ev)"
proof (induction c es h rule: ReadMessage.induct)
  case (1 c h)
  then show ?case by simp
next
  case (2 c t es h)
  show ?case
  proof (cases "readDeadline h c < t")
    case True
    with 2(2) have "es1 = es" "h1 = h" by simp_all
    with True have "Pong t # es = [] @ Pong t # es1 \<and> read_fails_on h1 c (Pong t)" by simp
    then show ?thesis by blast
  next
    case False
    with 2(2) have r: "ReadMessage c es (pong_handler c t h) = (None, es1, h1)" by simp
    from 2(1)[OF False r] show ?thesis
    proof
      assume "es1 = [] \<and> (\<forall>ev\<in>set es. (\<exists>t. ev = Pong t) \<or> ev = Cancelled)"
      then show ?thesis by simp
    next
      assume "\<exists>pre ev. es = pre @ ev # es1 \<and> read_fails_on h1 c ev"
      then obtain pre ev where "es = pre @ ev # es1" "read_fails_on h1 c ev" by blast
      then have "Pong t # es = (Pong t # pre) @ ev # es1 \<and> read_fails_on h1 c ev" by simp
      then show ?thesis by blast
    qed
  qed
next
  case (3 c es h)
  from 3(2) have r: "ReadMessage c es (h\<lparr>ctx_done := (ctx_done h)(c := True)\<rparr>) = (None, es1, h1)"
    by simp
  from 3(1)[OF r] show ?case
  proof
    assume "es1 = [] \<and> (\<forall>ev\<in>set es. (\<exists>t. ev = Pong t) \<or> ev = Cancelled)"
    then show ?thesis by simp
  next
    assume "\<exists>pre ev. es = pre @ ev # es1 \<and> read_fails_on h1 c ev"
    then obtain pre ev where "es = pre @ ev # es1" "read_fails_on h1 c ev" by blast
    then have "Cancelled # es = (Cancelled # pre) @ ev # es1 \<and> read_fails_on h1 c ev" by simp
    then show ?thesis by blast
  qed
next
  case (4 c es h)
  then have "ReadError # es = [] @ ReadError # es1 \<and> read_fails_on h1 c ReadError" by simp
  then show ?case by blast
next
  case (5 c r es h)
  then have "Frame r # es = [] @ Frame r # es1 \<and> read_fails_on h1 c (Frame r)"
    by (auto split: if_splits)
  then show ?case by blast
qed

lemma error_reply_full:
  assumes "\<not> closed (send h c)" "\<not> length (buf (send h c)) < sendBufferSize"
    "error_reply marshal c errorMsg env tr h = (tr', st, h')"
  shows "h' = h"
proof -
  from SendMessage_open[OF assms(1), of marshal "error_event c errorMsg" env]
  obtain res h1 where s: "SendMessage marshal c (error_event c errorMsg) env h = Inr (res, h1)"
    and n: "res = SendNil \<longrightarrow> (\<exists>data. marshal (error_event c errorMsg) = Inr data \<and> h1 = enqueue c data h \<and>
                                length (buf (send h c)) < sendBufferSize)"
    by blast
  from n assms(2) have ne: "res \<noteq> SendNil" by blast
  with SendMessage_cases[OF s] have "h1 = h" by blast
  with s assms(3) show ?thesis
    by (cases res) (simp_all add: error_reply_def SendError_def error_event_def)
qed

lemma ReadPump_loop_returns:
  assumes "ReadPump_loop unmarshal marshal c es h = (tr, Returned, h')"
  shows "ctx_done h c \<and> h' = h \<or>
     (\<exists>es1. ReadMessage c es h = (None, es1, h')) \<or>
     (\<exists>r es1 h1 tr1 h2 tr2. ReadMessage c es h = (Some r, es1, h1) \<and>
         ReadPump_body unmarshal marshal c r h1 = (tr1, None, h2) \<and>
         ReadPump_loop unmarshal marshal c es1 h2 = (tr2, Returned, h'))"
proof (cases "ctx_done h c")
  case True
  with assms show ?thesis by (subst (asm) ReadPump_loop.simps) simp
next
  case nd: False
  obtain ro es1 h1 where rm: "ReadMessage c es h = (ro, es1, h1)" by (cases "ReadMessage c es h") auto
  show ?thesis
  proof (cases ro)
    case None
    with nd rm assms have "h' = h1" by (subst (asm) ReadPump_loop.simps) simp
    with rm None show ?thesis by blast
  next
    case (Some r)
    obtain tr1 so h2 where b: "ReadPump_body unmarshal marshal c r h1 = (tr1, so, h2)"
      by (cases "ReadPump_body unmarshal marshal c r h1") auto
    show ?thesis
    proof (cases so)
      case st1: (Some st1)
      with nd rm Some b assms have "st1 = Returned"
        by (subst (asm) ReadPump_loop.simps) simp
      with ReadPump_body_never_returns[OF b] st1 show ?thesis by simp
    next
      case None
      obtain tr2 st2 h3 where l: "ReadPump_loop unmarshal marshal c es1 h2 = (tr2, st2, h3)"
        by (cases "ReadPump_loop unmarshal marshal c es1 h2") auto
      with nd rm Some b None assms have "st2 = Returned" "h3 = h'"
        by (subst (asm) ReadPump_loop.simps, simp)+
      with l rm Some b None show ?thesis by blast
    qed
  qed
qed

text \<open>
  C7 (as amended).  A frame that was read (in time and within the size limit) and
  whose payload does not decode, or decodes to an event of an unknown type, makes the
  read pump call \<open>SendError\<close> once with the matching text on the same connection, and
  nothing else: the connection and the context stay as they are, the tables are not
  touched.  The iteration then either goes on with the next read or is still waiting
  in the select of \<open>SendMessage\<close>: it neither returns from the pump nor panics.  It
  waits only while the error event serialises, the queue is full, the 5 seconds are not
  over and the context is live.  When the queue has room (timer not yet due, context
  live) the serialised error event is appended to the queue of that connection.  When
  the queue is full nothing is appended to it, and once the 5 seconds are over the
  reply is given up and the loop goes on.  The loop returns only where it finds the
  context cancelled or where its read fails (at once, or after frames that it handled
  and went on from), and a read fails only on a read error, on a pong or a frame that
  comes after the deadline, on a frame above the size limit, or when nothing but
  pongs came until the deadline.  All this is for a connection whose queue has not
  been closed.
\<close>

theorem C7_malformed_recoverable:
  assumes opn: "\<not> closed (send h c)"
    and bad: "unmarshal (payload r) = None \<and> errorMsg = ''Invalid message format'' \<and> env = sel1 r \<or>
        (\<exists>msg. unmarshal (payload r) = Some msg \<and>
           in_Type msg \<noteq> ''message'' \<and> in_Type msg \<noteq> ''typing'' \<and> in_Type msg \<noteq> ''ping'' \<and>
           errorMsg = ''Error processing message: unknown message type: '' @ in_Type msg \<and> env = sel2 r)"
  shows "\<exists>st h'. ReadPump_body unmarshal marshal c r h = ([SendErrorCall c errorMsg], st, h') \<and>
      same_but_queue c h h' \<and>
      (st = None \<or> st = Some Stuck) \<and>
      (st = Some Stuck \<longleftrightarrow> (\<exists>d. marshal (error_event c errorMsg) = Inr d) \<and> select_blocked c env h) \<and>
      (\<forall>data. marshal (error_event c errorMsg) = Inr data \<and>
          length (buf (send h c)) < sendBufferSize \<and> \<not> timer_ready (fst env) \<and> \<not> ctx_done h c
          \<longrightarrow> st = None \<and> send h' c = (send h c)\<lparr>buf := buf (send h c) @ [data]\<rparr>) \<and>
      (\<not> length (buf (send h c)) < sendBufferSize \<longrightarrow>
          send h' c = send h c \<and> (timer_ready (fst env) \<longrightarrow> st = None)) \<and>
      (st = None \<and> \<not> ctx_done h c \<and> at r \<le> readDeadline h c \<and> length (payload r) \<le> maxMessageSize
         \<longrightarrow> ReadPump_loop unmarshal marshal c (Frame r # es) h =
              (case ReadPump_loop unmarshal marshal c es h' of
                 (tr2, st2, h2) \<Rightarrow> (SendErrorCall c errorMsg # tr2, st2, h2))) \<and>
      (\<forall>es0 h0 tr0 h0'. ReadPump_loop unmarshal marshal c es0 h0 = (tr0, Returned, h0') \<longrightarrow>
          ctx_done h0 c \<and> h0' = h0 \<or>
          (\<exists>es1. ReadMessage c es0 h0 = (None, es1, h0')) \<or>
          (\<exists>r0 es1 h1 tr1 h2 tr2. ReadMessage c es0 h0 = (Some r0, es1, h1) \<and>
              ReadPump_body unmarshal marshal c r0 h1 = (tr1, None, h2) \<and>
              ReadPump_loop unmarshal marshal c es1 h2 = (tr2, Returned, h0'))) \<and>
      (\<forall>es1 h1 es2 h2. ReadMessage c es1 h1 = (None, es2, h2) \<longrightarrow>
          (es2 = [] \<and> (\<forall>ev\<in>set es1. (\<exists>t. ev = Pong t) \<or> ev = Cancelled)) \<or>
          (\<exists>pre ev. es1 = pre @ ev # es2 \<and> read_fails_on h2 c ev))"
proof -
  let ?h1 = "updateActivity c (at r) h"
  have body: "ReadPump_body unmarshal marshal c r h = error_reply marshal c errorMsg env [] ?h1"
    using bad by (auto simp: ReadPump_body_malformed ReadPump_body_unknown)
  have o1: "\<not> closed (send ?h1 c)" using opn by (simp add: updateActivity_def)
  from error_reply_open[OF o1, of marshal errorMsg env "[]"]
  obtain st h' where e: "error_reply marshal c errorMsg env [] ?h1 = ([] @ [SendErrorCall c errorMsg], st, h')"
    and q: "same_but_queue c ?h1 h'"
    and s: "st = None \<or> st = Some Stuck"
    and b: "st = Some Stuck \<longleftrightarrow> (\<exists>d. marshal (error_event c errorMsg) = Inr d) \<and> select_blocked c env ?h1"
    and d: "\<forall>data. marshal (error_event c errorMsg) = Inr data \<and>
               length (buf (send ?h1 c)) < sendBufferSize \<and> \<not> timer_ready (fst env) \<and> \<not> ctx_done ?h1 c
               \<longrightarrow> st = None \<and> h' = enqueue c data ?h1"
    by blast
  have c1: "ReadPump_body unmarshal marshal c r h = ([SendErrorCall c errorMsg], st, h')"
    using body e by simp
  have c2: "same_but_queue c h h'"
    using same_but_queue_trans[OF same_but_queue_updateActivity q] .
  have c4: "st = Some Stuck \<longleftrightarrow> (\<exists>d. marshal (error_event c errorMsg) = Inr d) \<and> select_blocked c env h"
    using b by (simp add: select_blocked_updateActivity)
  have c5: "\<forall>data. marshal (error_event c errorMsg) = Inr data \<and>
          length (buf (send h c)) < sendBufferSize \<and> \<not> timer_ready (fst env) \<and> \<not> ctx_done h c
          \<longrightarrow> st = None \<and> send h' c = (send h c)\<lparr>buf := buf (send h c) @ [data]\<rparr>"
    using d by (auto simp: updateActivity_def enqueue_def)
  have c5b: "\<not> length (buf (send h c)) < sendBufferSize \<longrightarrow>
          send h' c = send h c \<and> (timer_ready (fst env) \<longrightarrow> st = None)"
  proof
    assume f: "\<not> length (buf (send h c)) < sendBufferSize"
    then have f1: "\<not> length (buf (send ?h1 c)) < sendBufferSize" by (simp add: updateActivity_def)
    from error_reply_full[OF o1 f1 e] have "h' = ?h1" .
    then have "send h' c = send h c" by (simp add: updateActivity_def)
    moreover have "timer_ready (fst env) \<longrightarrow> st = None"
      using s c4 by (auto simp: select_blocked_def)
    ultimately show "send h' c = send h c \<and> (timer_ready (fst env) \<longrightarrow> st = None)" by simp
  qed
  have c6: "st = None \<and> \<not> ctx_done h c \<and> at r \<le> readDeadline h c \<and> length (payload r) \<le> maxMessageSize
         \<longrightarrow> ReadPump_loop unmarshal marshal c (Frame r # es) h =
              (case ReadPump_loop unmarshal marshal c es h' of
                 (tr2, st2, h2) \<Rightarrow> (SendErrorCall c errorMsg # tr2, st2, h2))"
    by (auto simp: ReadPump_loop_frame c1 split: prod.splits)
  have c7: "\<forall>es0 h0 tr0 h0'. ReadPump_loop unmarshal marshal c es0 h0 = (tr0, Returned, h0') \<longrightarrow>
          ctx_done h0 c \<and> h0' = h0 \<or>
          (\<exists>es1. ReadMessage c es0 h0 = (None, es1, h0')) \<or>
          (\<exists>r0 es1 h1 tr1 h2 tr2. ReadMessage c es0 h0 = (Some r0, es1, h1) \<and>
              ReadPump_body unmarshal marshal c r0 h1 = (tr1, None, h2) \<and>
              ReadPump_loop unmarshal marshal c es1 h2 = (tr2, Returned, h0'))"
    using ReadPump_loop_returns by blast
  have c8: "\<forall>es1 h1 es2 h2. ReadMessage c es1 h1 = (None, es2, h2) \<longrightarrow>
          (es2 = [] \<and> (\<forall>ev\<in>set es1. (\<exists>t. ev = Pong t) \<or> ev = Cancelled)) \<or>
          (\<exists>pre ev. es1 = pre @ ev # es2 \<and> read_fails_on h2 c ev)"
    using ReadMessage_fails by blast
  show ?thesis
    apply (rule exI[of _ st], rule exI[of _ h'])
    apply (intro conjI)
            apply (rule c1)
           apply (rule c2)
          apply (rule s)
         apply (rule c4)
        apply (rule c5)
       apply (rule c5b)
      apply (rule c6)
     apply (rule c7)
    apply (rule c8)
    done
qed


theorem C7_malformed_recoverable_witness:
  "\<not> closed (send room7 conn_A) \<and> unmarshal_ex (payload (frame_at 1 ''{'')) = None \<and>
   (\<exists>h'. ReadPump_body unmarshal_ex marshal_ws conn_A (frame_at 1 ''{'') room7
           = ([SendErrorCall conn_A ''Invalid message format''], None, h') \<and>
        same_but_queue conn_A room7 h' \<and>
        send h' conn_A = \<lparr>buf = [''error:Invalid message format''], closed = False\<rparr>)"
proof -
  have o: "\<not> closed (send room7 conn_A)" by (simp add: room7_tables make_chan_def)
  have u: "unmarshal_ex (payload (frame_at 1 ''{'')) = None"
    by (simp add: unmarshal_ex_def frame_at_def)
  have bad: "unmarshal_ex (payload (frame_at 1 ''{'')) = None \<and>
        ''Invalid message format'' = ''Invalid message format'' \<and> sel1 (frame_at 1 ''{'') = sel1 (frame_at 1 ''{'') \<or>
        (\<exists>msg. unmarshal_ex (payload (frame_at 1 ''{'')) = Some msg \<and>
           in_Type msg \<noteq> ''message'' \<and> in_Type msg \<noteq> ''typing'' \<and> in_Type msg \<noteq> ''ping'' \<and>
           ''Invalid message format'' = ''Error processing message: unknown message type: '' @ in_Type msg \<and>
           sel1 (frame_at 1 ''{'') = sel2 (frame_at 1 ''{''))"
    using u by simp
  from C7_malformed_recoverable[where h = room7 and c = conn_A and r = "frame_at 1 ''{''"
      and unmarshal = unmarshal_ex and marshal = marshal_ws
      and errorMsg = "''Invalid message format''" and env = "sel1 (frame_at 1 ''{'')"
      and es = "[]", OF o bad]
  obtain st h' where b: "ReadPump_body unmarshal_ex marshal_ws conn_A (frame_at 1 ''{'') room7
           = ([SendErrorCall conn_A ''Invalid message format''], st, h')"
    and q: "same_but_queue conn_A room7 h'"
    and d: "\<forall>data. marshal_ws (error_event conn_A ''Invalid message format'') = Inr data \<and>
          length (buf (send room7 conn_A)) < sendBufferSize \<and>
          \<not> timer_ready (fst (sel1 (frame_at 1 ''{''))) \<and> \<not> ctx_done room7 conn_A
          \<longrightarrow> st = None \<and> send h' conn_A = (send room7 conn_A)\<lparr>buf := buf (send room7 conn_A) @ [data]\<rparr>"
    by blast
  have "marshal_ws (error_event conn_A ''Invalid message format'') = Inr ''error:Invalid message format'' \<and>
          length (buf (send room7 conn_A)) < sendBufferSize \<and>
          \<not> timer_ready (fst (sel1 (frame_at 1 ''{''))) \<and> \<not> ctx_done room7 conn_A"
    by (simp add: marshal_ws_error room7_tables make_chan_room room7_conn timer_ready_def
        frame_at_def Second_def)
  with d have "st = None \<and> send h' conn_A = (send room7 conn_A)\<lparr>buf := buf (send room7 conn_A) @ [''error:Invalid message format'']\<rparr>"
    by blast
  then have "st = None" "send h' conn_A = \<lparr>buf = [''error:Invalid message format''], closed = False\<rparr>"
    by (simp_all add: room7_tables make_chan_def)
  with b q o u show ?thesis by blast
qed

text \<open>
  The claim as stated fails: the queue of \<open>conn_A\<close> is full and stays full, a frame
  that does not decode arrives, and 5 seconds after \<open>SendError\<close> has entered its select
  the timer fires.  The loop goes on, but no error event was sent back: the queue is as
  it was and does not hold the serialised error event.
\<close>

theorem C7_counterexample:
  "unmarshal_ex (payload ((frame_at 1 ''{'')\<lparr>sel1 := (5 * Second, [])\<rparr>)) = None \<and>
   ReadPump_body unmarshal_ex marshal_ws conn_A ((frame_at 1 ''{'')\<lparr>sel1 := (5 * Second, [])\<rparr>) room7_full
     = ([SendErrorCall conn_A ''Invalid message format''], None,
        updateActivity conn_A Second room7_full) \<and>
   send (updateActivity conn_A Second room7_full) conn_A = send room7_full conn_A \<and>
   marshal_ws (error_event conn_A ''Invalid message format'') = Inr ''error:Invalid message format'' \<and>
   ''error:Invalid message format'' \<notin> set (buf (send room7_full conn_A))"
proof -
  let ?r = "(frame_at 1 ''{'')\<lparr>sel1 := (5 * Second, [])\<rparr>"
  let ?h1 = "updateActivity conn_A Second room7_full"
  have u: "unmarshal_ex (payload ?r) = None" by (simp add: unmarshal_ex_def frame_at_def)
  have f: "\<not> closed (send ?h1 conn_A)" "\<not> length (buf (send ?h1 conn_A)) < sendBufferSize"
    "\<not> ctx_done ?h1 conn_A"
    by (simp_all add: updateActivity_def room7_full_fields full_chan_full room7_full_def room7_conn)
  have m: "marshal_ws (error_event conn_A ''Invalid message format'') = Inr ''error:Invalid message format''"
    by (simp add: marshal_ws_error)
  have "select_pick
          (\<lambda>k. case k of CaseSend \<Rightarrow> send_ready (send ?h1 conn_A)
                       | CaseTimer \<Rightarrow> timer_ready (5 * Second)
                       | CaseDone \<Rightarrow> ctx_done ?h1 conn_A) [] = Some CaseTimer"
  proof (rule select_pick_only)
    show "case CaseTimer of CaseSend \<Rightarrow> send_ready (send ?h1 conn_A)
                       | CaseTimer \<Rightarrow> timer_ready (5 * Second)
                       | CaseDone \<Rightarrow> ctx_done ?h1 conn_A"
      by (simp add: timer_ready_def)
    fix k' assume "case k' of CaseSend \<Rightarrow> send_ready (send ?h1 conn_A)
                       | CaseTimer \<Rightarrow> timer_ready (5 * Second)
                       | CaseDone \<Rightarrow> ctx_done ?h1 conn_A"
    with f show "k' = CaseTimer" by (cases k') (simp_all add: send_ready_def)
  qed
  with m have s: "SendMessage marshal_ws conn_A (error_event conn_A ''Invalid message format'')
      (5 * Second, []) ?h1 = Inr (SendErr ''timeout sending message to client'', ?h1)"
    by (simp add: SendMessage_def)
  have b: "ReadPump_body unmarshal_ex marshal_ws conn_A ?r room7_full
     = ([SendErrorCall conn_A ''Invalid message format''], None, ?h1)"
    using u s
    by (simp add: ReadPump_body_def Let_def error_reply_def SendError_def error_event_def
        frame_at_def)
  have q: "send ?h1 conn_A = send room7_full conn_A" by (simp add: updateActivity_def)
  have n: "''error:Invalid message format'' \<notin> set (buf (send room7_full conn_A))"
    by (simp add: room7_full_fields full_chan_def)
  from u b q m n show ?thesis by (intro conjI)
qed

text \<open>
  Left out of the amended claim: the hub has run \<open>unregisterClient\<close> for \<open>conn_A\<close> (it
  found the queue full during a broadcast, or the connection was stale), so the queue
  is closed, while the read pump still runs.  A frame that does not decode then makes
  \<open>SendError\<close> send on the closed queue.
\<close>

lemma error_reply_on_closed_queue:
  "unregisterClient conn_A room7 = Inr room7_closed \<and>
   ReadPump_body unmarshal_ex marshal_ws conn_A (frame_at 1 ''{'') room7_closed
     = ([SendErrorCall conn_A ''Invalid message format''], Some (Crashed SendOnClosedChannel),
        updateActivity conn_A Second room7_closed)"
proof -
  have u: "unregisterClient conn_A room7 = Inr room7_closed"
    by (simp add: unregisterClient_def room7_closed_def room7_def registerClient_def Let_def
        NewHub_def fresh_def add_member_def remove_member_def unregister_room_def chan_close_def
        make_chan_def conn_A_def conn_B_def uuid_Nil_def)
       auto
  have c: "closed (send (updateActivity conn_A Second room7_closed) conn_A)"
    by (simp add: updateActivity_def room7_closed_def registerClient_def Let_def NewHub_def)
  have "select_pick
          (\<lambda>k. case k of CaseSend \<Rightarrow> send_ready (send (updateActivity conn_A Second room7_closed) conn_A)
                       | CaseTimer \<Rightarrow> timer_ready 0
                       | CaseDone \<Rightarrow> ctx_done (updateActivity conn_A Second room7_closed) conn_A) []
        = Some CaseSend"
    using c by (simp add: select_pick_def send_ready_def)
  then show ?thesis
    using u c
    by (simp add: ReadPump_body_def Let_def unmarshal_ex_def frame_at_def error_reply_def
        SendError_def SendMessage_def marshal_ws_def)
qed









lemma filter_update_length:
  "i < length xs \<Longrightarrow>
     length (filter P (xs[i := y])) + (if P (xs ! i) then 1 else 0) =
     length (filter P xs) + (if P y then 1 else 0)"
proof (induction xs arbitrary: i)
  case Nil
  then show ?case by simp
next
  case (Cons x xs)
  then show ?case by (cases i) auto
qed

lemma filter_one_unique:
  assumes "length (filter P xs) \<le> 1" "i < length xs" "j < length xs" "P (xs ! i)" "P (xs ! j)"
  shows "i = j"
proof (rule ccontr)
  assume ne: "i \<noteq> j"
  have "{i, j} \<subseteq> {k. k < length xs \<and> P (xs ! k)}" using assms by auto
  then have "card {i, j} \<le> card {k. k < length xs \<and> P (xs ! k)}" by (intro card_mono) auto
  with ne have "2 \<le> length (filter P xs)" by (simp add: length_filter_conv_card)
  with assms(1) show False by simp
qed

lemma mu_inv_enter: "mu_inv (enter a k s) = mu_inv s"
  by (simp add: mu_inv_def enter_def holding_def)

lemma mu_inv_hub: "mu_inv (s\<lparr>hub := h\<rparr>) = mu_inv s"
  by (simp add: mu_inv_def)

lemma mu_inv_advance:
  assumes "mu_inv s" "advance marshal i s = Inr s'"
  shows "mu_inv s'"
proof (cases "length (calls s) \<le> i")
  case True
  with assms show ?thesis by (simp add: advance_def)
next
  case False
  then have i: "i < length (calls s)" by simp
  let ?g = "calls s ! i"
  let ?R = "\<lambda>g. holding g \<and> \<not> exclusive (call g)"
  let ?W = "\<lambda>g. holding g \<and> exclusive (call g)"
  note R = filter_update_length[OF i, of ?R] and W = filter_update_length[OF i, of ?W]
  show ?thesis
  proof (cases "phase ?g")
    case AtLock
    with assms i R[of "?g\<lparr>phase := FirstHalf\<rparr>"] W[of "?g\<lparr>phase := FirstHalf\<rparr>"]
    show ?thesis
      by (auto simp: advance_def set_phase_def mu_inv_def holding_def split: if_splits)
  next
    case FirstHalf
    with assms i R[of "?g\<lparr>phase := SecondHalf\<rparr>"] W[of "?g\<lparr>phase := SecondHalf\<rparr>"]
    show ?thesis
      by (auto simp: advance_def set_phase_def mu_inv_def holding_def split: if_splits sum.splits)
  next
    case SecondHalf
    with assms i R[of "?g\<lparr>phase := AtUnlock\<rparr>"] W[of "?g\<lparr>phase := AtUnlock\<rparr>"]
    show ?thesis
      by (auto simp: advance_def set_phase_def mu_inv_def holding_def split: if_splits)
  next
    case AtUnlock
    with assms i R[of "?g\<lparr>phase := Finished\<rparr>"] W[of "?g\<lparr>phase := Finished\<rparr>"]
    show ?thesis
      by (auto simp: advance_def set_phase_def mu_inv_def holding_def split: if_splits)
  next
    case Finished
    with assms i show ?thesis by (simp add: advance_def)
  qed
qed

lemma roles_inv_enter: "caller_ok a k \<Longrightarrow> roles_inv (enter a k s) = roles_inv s"
  by (simp add: roles_inv_def enter_def)

lemma roles_inv_hub: "roles_inv (s\<lparr>hub := h\<rparr>) = roles_inv s"
  by (simp add: roles_inv_def)

lemma roles_inv_set_phase: "roles_inv s \<Longrightarrow> roles_inv (set_phase i p s)"
proof -
  assume r: "roles_inv s"
  show ?thesis
  proof (cases "i < length (calls s)")
    case True
    have "set ((calls s)[i := (calls s ! i)\<lparr>phase := p\<rparr>]) \<subseteq> insert ((calls s ! i)\<lparr>phase := p\<rparr>) (set (calls s))"
      by (rule set_update_subset_insert)
    moreover have "caller_ok (who (calls s ! i)) (call (calls s ! i))"
      using r True by (simp add: roles_inv_def list_all_length)
    ultimately show ?thesis using r by (auto simp: roles_inv_def set_phase_def list_all_iff)
  next
    case False
    then have "length (calls s) \<le> i" by simp
    then have "(calls s)[i := (calls s ! i)\<lparr>phase := p\<rparr>] = calls s" by (rule list_update_beyond)
    with r show ?thesis by (simp add: roles_inv_def set_phase_def)
  qed
qed

lemma roles_inv_fields:
  "roles_inv (s\<lparr>writer := w\<rparr>) = roles_inv s" "roles_inv (s\<lparr>readers := n\<rparr>) = roles_inv s"
  by (simp_all add: roles_inv_def)

lemma roles_inv_advance:
  assumes "roles_inv s" "advance marshal i s = Inr s'"
  shows "roles_inv s'"
  using assms
  by (auto simp: advance_def roles_inv_set_phase roles_inv_fields roles_inv_hub
      split: if_splits phase.splits sum.splits)

lemma sched_step_inv:
  assumes "mu_inv s" "roles_inv s" "sched_step marshal ev s = Inr s'"
  shows "mu_inv s' \<and> roles_inv s'"
proof (cases ev)
  case (LoopReceives cmd)
  with assms show ?thesis
    by (cases cmd)
       (auto simp: sched_step_def mu_inv_enter mu_inv_hub roles_inv_enter roles_inv_hub
          split: if_splits list.splits)
next
  case (GoStarts c)
  with assms show ?thesis
    by (auto simp: sched_step_def mu_inv_enter mu_inv_hub roles_inv_enter roles_inv_hub
        split: if_splits)
next
  case (ToUserCalled u m ord)
  with assms show ?thesis
    by (auto simp: sched_step_def mu_inv_enter roles_inv_enter)
next
  case ShutdownCalled
  with assms show ?thesis
    by (auto simp: sched_step_def mu_inv_hub roles_inv_hub)
next
  case (Advance i)
  with assms mu_inv_advance[of s marshal i s'] roles_inv_advance[of s marshal i s']
  show ?thesis by (simp add: sched_step_def)
qed

lemma run_events_inv:
  "mu_inv s \<Longrightarrow> roles_inv s \<Longrightarrow> run_events marshal evs s = Inr s' \<Longrightarrow> mu_inv s' \<and> roles_inv s'"
proof (induction evs arbitrary: s)
  case Nil
  then show ?case by simp
next
  case (Cons ev evs)
  from Cons.prems(3) obtain s1 where s: "sched_step marshal ev s = Inr s1"
    and r: "run_events marshal evs s1 = Inr s'"
    by (auto split: sum.splits)
  from sched_step_inv[OF Cons.prems(1,2) s] Cons.IH[OF _ _ r] show ?case by blast
qed

lemma boot_inv: "mu_inv (boot h)" "roles_inv (boot h)"
  by (simp_all add: mu_inv_def roles_inv_def boot_def)

lemma close_all_tables:
  "close_all cs h = Inr h' \<Longrightarrow>
     clients h' = clients h \<and> conversations h' = conversations h \<and>
     go_unregister h' = go_unregister h"
proof (induction cs arbitrary: h)
  case Nil
  then show ?case by simp
next
  case (Cons client rest)
  from Cons.prems obtain ch where "chan_close (send h client) = Inr ch"
    and r: "close_all rest (h\<lparr>send := (send h)(client := ch)\<rparr>) = Inr h'"
    by (auto split: sum.splits)
  from Cons.IH[OF r] show ?case by simp
qed

lemma call_first_tables:
  assumes "call_first marshal k h = Inr h'"
    and "clients h' \<noteq> clients h \<or> conversations h' \<noteq> conversations h"
  shows "(\<exists>c. k = CallRegister c) \<or> (\<exists>c. k = CallUnregister c)"
proof (cases k)
  case (CallBroadcast b ord)
  with assms(1) obtain tr where "broadcastMessage marshal ord b h = Inr (tr, h')"
    by (auto simp: call_first_def split: sum.splits)
  from broadcastMessage_tables[OF this] assms(2) show ?thesis by simp
next
  case (CallToUser u m ord)
  with assms(1) obtain tr where "BroadcastToUser marshal ord u m h = Inr (tr, h')"
    by (auto simp: call_first_def split: sum.splits)
  from BroadcastToUser_tables[OF this] assms(2) show ?thesis by simp
next
  case (CallSweep now ord)
  with assms show ?thesis by (auto simp: call_first_def cleanupStaleConnections_def Let_def)
next
  case (CallCleanup ord)
  with assms(1) have "close_all (map snd ord) h = Inr h'" by (simp add: call_first_def)
  from close_all_tables[OF this] assms(2) show ?thesis by simp
qed simp_all

lemma call_second_tables:
  assumes "clients (call_second k h) \<noteq> clients h \<or> conversations (call_second k h) \<noteq> conversations h"
  shows "(\<exists>c. k = CallRegister c) \<or> (\<exists>c. k = CallUnregister c) \<or> (\<exists>ord. k = CallCleanup ord)"
  using assms by (cases k) (simp_all add: call_second_def)

lemma call_first_go:
  assumes "call_first marshal k h = Inr h'"
    and "length (go_unregister h) < length (go_unregister h')"
  shows "(\<exists>b ord. k = CallBroadcast b ord) \<or> (\<exists>now ord. k = CallSweep now ord)"
proof (cases k)
  case (CallRegister c)
  with assms show ?thesis by (auto simp: call_first_def)
next
  case (CallUnregister c)
  with assms show ?thesis
    by (auto simp: call_first_def chan_close_def split: option.splits if_splits)
next
  case (CallToUser u m ord)
  with assms(1) obtain tr where "BroadcastToUser marshal ord u m h = Inr (tr, h')"
    by (auto simp: call_first_def split: sum.splits)
  from BroadcastToUser_tables[OF this] assms(2) show ?thesis by simp
next
  case (CallCleanup ord)
  with assms(1) have "close_all (map snd ord) h = Inr h'" by (simp add: call_first_def)
  from close_all_tables[OF this] assms(2) show ?thesis by simp
qed simp_all

lemma call_second_go: "go_unregister (call_second k h) = go_unregister h"
  by (cases k) (simp_all add: call_second_def unregister_room_def split: option.splits)

text \<open>The two halves of a call together are the function of the hub.\<close>

lemma call_halves:
  "call_first marshal (CallRegister c) h = Inr h1 \<Longrightarrow>
     call_second (CallRegister c :: 'm call) h1 = registerClient c h"
  "unregisterClient c h =
     (case call_first marshal (CallUnregister c) h of
        Inl e \<Rightarrow> Inl e | Inr h1 \<Rightarrow> Inr (call_second (CallUnregister c :: 'm call) h1))"
  "cleanup ord h =
     (case call_first marshal (CallCleanup ord) h of
        Inl e \<Rightarrow> Inl e | Inr h1 \<Rightarrow> Inr (call_second (CallCleanup ord :: 'm call) h1))"
  "call_first marshal (CallBroadcast b ord') h =
     (case broadcastMessage marshal ord' b h of Inl e \<Rightarrow> Inl e | Inr (tr, h') \<Rightarrow> Inr h')"
  "call_second (CallBroadcast b ord') h = h"
  by (auto simp: call_first_def call_second_def registerClient_def Let_def unregisterClient_def
      cleanup_def split: option.splits sum.splits)

lemma writer_excludes:
  assumes "mu_inv s" "i < length (calls s)" "holding (calls s ! i)" "exclusive (call (calls s ! i))"
  shows "writer s \<and> readers s = 0 \<and> (\<forall>j<length (calls s). j \<noteq> i \<longrightarrow> \<not> holding (calls s ! j))"
proof -
  let ?R = "\<lambda>g. holding g \<and> \<not> exclusive (call g)"
  let ?W = "\<lambda>g. holding g \<and> exclusive (call g)"
  have "calls s ! i \<in> set (filter ?W (calls s))" using assms(2,3,4) by simp
  then have "filter ?W (calls s) \<noteq> []" by (metis empty_iff list.set(1))
  with assms(1) have w: "writer s" and one: "length (filter ?W (calls s)) \<le> 1"
    by (auto simp: mu_inv_def split: if_splits)
  from assms(1) w have r: "readers s = 0" unfolding mu_inv_def by blast
  with assms(1) have "length (filter ?R (calls s)) = 0" unfolding mu_inv_def by metis
  then have nor: "filter ?R (calls s) = []" by simp
  have "\<not> holding (calls s ! j)" if j: "j < length (calls s)" "j \<noteq> i" for j
  proof
    assume h: "holding (calls s ! j)"
    have "\<not> ?R (calls s ! j)" using nor j(1) by (auto simp: filter_empty_conv)
    with h have "?W (calls s ! j)" by simp
    from filter_one_unique[OF one assms(2) j(1) _ this] assms(3,4) j(2) show False by simp
  qed
  with w r show ?thesis by blast
qed

lemma reader_excludes:
  assumes "mu_inv s" "i < length (calls s)" "holding (calls s ! i)" "\<not> exclusive (call (calls s ! i))"
  shows "\<not> writer s \<and> (\<forall>j<length (calls s). holding (calls s ! j) \<longrightarrow> \<not> exclusive (call (calls s ! j)))"
proof -
  let ?R = "\<lambda>g. holding g \<and> \<not> exclusive (call g)"
  let ?W = "\<lambda>g. holding g \<and> exclusive (call g)"
  have "calls s ! i \<in> set (filter ?R (calls s))" using assms(2,3,4) by simp
  then have "filter ?R (calls s) \<noteq> []" by (metis empty_iff list.set(1))
  with assms(1) have "readers s \<noteq> 0" by (simp add: mu_inv_def)
  with assms(1) have w: "\<not> writer s" by (auto simp: mu_inv_def)
  with assms(1) have "filter ?W (calls s) = []" by (simp add: mu_inv_def)
  then have "\<forall>j<length (calls s). \<not> ?W (calls s ! j)" by (auto simp: filter_empty_conv)
  with w show ?thesis by blast
qed

lemma hub_set_phase: "hub (set_phase i p s) = hub s" "length (calls (set_phase i p s)) = length (calls s)"
  by (simp_all add: set_phase_def)

lemma advance_length: "advance marshal i s = Inr s' \<Longrightarrow> length (calls s') = length (calls s)"
  by (auto simp: advance_def hub_set_phase split: if_splits phase.splits sum.splits)

lemma sched_step_tables:
  assumes "sched_step marshal ev s = Inr s'"
    and "clients (hub s') \<noteq> clients (hub s) \<or> conversations (hub s') \<noteq> conversations (hub s)"
  shows "\<exists>i. ev = Advance i \<and> i < length (calls s) \<and>
           (phase (calls s ! i) = FirstHalf \<or> phase (calls s ! i) = SecondHalf) \<and>
           ((\<exists>c. call (calls s ! i) = CallRegister c) \<or> (\<exists>c. call (calls s ! i) = CallUnregister c) \<or>
            (\<exists>ord. call (calls s ! i) = CallCleanup ord))"
proof (cases ev)
  case (LoopReceives cmd)
  with assms show ?thesis
    by (cases cmd) (auto simp: sched_step_def enter_def split: if_splits list.splits)
next
  case (GoStarts c)
  with assms show ?thesis by (auto simp: sched_step_def enter_def split: if_splits)
next
  case (ToUserCalled u m ord)
  with assms show ?thesis by (auto simp: sched_step_def enter_def)
next
  case ShutdownCalled
  with assms show ?thesis by (auto simp: sched_step_def Shutdown_def)
next
  case (Advance i)
  with assms(1) have a: "advance marshal i s = Inr s'" by (simp add: sched_step_def)
  show ?thesis
  proof (cases "length (calls s) \<le> i")
    case True
    with a assms(2) show ?thesis by (simp add: advance_def)
  next
    case False
    then have i: "i < length (calls s)" by simp
    show ?thesis
    proof (cases "phase (calls s ! i)")
      case FirstHalf
      with a False obtain h' where f: "call_first marshal (call (calls s ! i)) (hub s) = Inr h'"
        and s': "s' = set_phase i SecondHalf (s\<lparr>hub := h'\<rparr>)"
        by (auto simp: advance_def split: sum.splits)
      from s' have "hub s' = h'" by (simp add: set_phase_def)
      with call_first_tables[OF f] assms(2) Advance i FirstHalf show ?thesis by auto
    next
      case SecondHalf
      with a False have "hub s' = call_second (call (calls s ! i)) (hub s)"
        by (auto simp: advance_def set_phase_def)
      with call_second_tables[of "call (calls s ! i)" "hub s"] assms(2) Advance i SecondHalf
      show ?thesis by auto
    next
      case AtLock
      with a False assms(2) show ?thesis
        by (auto simp: advance_def set_phase_def split: if_splits)
    next
      case AtUnlock
      with a False assms(2) show ?thesis
        by (auto simp: advance_def set_phase_def split: if_splits)
    next
      case Finished
      with a False assms(2) show ?thesis by (auto simp: advance_def)
    qed
  qed
qed

lemma sched_step_go:
  assumes "sched_step marshal ev s = Inr s'"
    and "length (go_unregister (hub s)) < length (go_unregister (hub s'))"
  shows "\<exists>i. ev = Advance i \<and> i < length (calls s) \<and> phase (calls s ! i) = FirstHalf \<and>
           ((\<exists>b ord. call (calls s ! i) = CallBroadcast b ord) \<or>
            (\<exists>now ord. call (calls s ! i) = CallSweep now ord))"
proof (cases ev)
  case (LoopReceives cmd)
  with assms show ?thesis
    by (cases cmd) (auto simp: sched_step_def enter_def split: if_splits list.splits)
next
  case (GoStarts c)
  have "length (remove1 c (go_unregister (hub s))) \<le> length (go_unregister (hub s))"
    by (simp add: length_remove1)
  with GoStarts assms show ?thesis by (auto simp: sched_step_def enter_def split: if_splits)
next
  case (ToUserCalled u m ord)
  with assms show ?thesis by (auto simp: sched_step_def enter_def)
next
  case ShutdownCalled
  with assms show ?thesis by (auto simp: sched_step_def Shutdown_def)
next
  case (Advance i)
  with assms(1) have a: "advance marshal i s = Inr s'" by (simp add: sched_step_def)
  show ?thesis
  proof (cases "length (calls s) \<le> i")
    case True
    with a assms(2) show ?thesis by (simp add: advance_def)
  next
    case False
    then have i: "i < length (calls s)" by simp
    show ?thesis
    proof (cases "phase (calls s ! i)")
      case FirstHalf
      with a False obtain h' where f: "call_first marshal (call (calls s ! i)) (hub s) = Inr h'"
        and s': "s' = set_phase i SecondHalf (s\<lparr>hub := h'\<rparr>)"
        by (auto simp: advance_def split: sum.splits)
      from s' have "hub s' = h'" by (simp add: set_phase_def)
      with call_first_go[OF f] assms(2) Advance i FirstHalf show ?thesis by auto
    next
      case SecondHalf
      with a False have "hub s' = call_second (call (calls s ! i)) (hub s)"
        by (auto simp: advance_def set_phase_def)
      with assms(2) show ?thesis by (simp add: call_second_go)
    next
      case AtLock
      with a False assms(2) show ?thesis
        by (auto simp: advance_def set_phase_def split: if_splits)
    next
      case AtUnlock
      with a False assms(2) show ?thesis
        by (auto simp: advance_def set_phase_def split: if_splits)
    next
      case Finished
      with a False assms(2) show ?thesis by (auto simp: advance_def)
    qed
  qed
qed

lemma sched_step_spawn:
  assumes "sched_step marshal ev s = Inr s'" "calls s' = calls s @ [g]" "who g = SpawnedGoroutine"
  shows "\<exists>c. ev = GoStarts c \<and> c \<in> set (go_unregister (hub s)) \<and>
           call g = CallUnregister c \<and> phase g = AtLock \<and>
           go_unregister (hub s') = remove1 c (go_unregister (hub s))"
proof (cases ev)
  case (LoopReceives cmd)
  with assms show ?thesis
    by (cases cmd) (auto simp: sched_step_def enter_def split: if_splits list.splits)
next
  case (GoStarts c)
  with assms show ?thesis by (auto simp: sched_step_def enter_def split: if_splits)
next
  case (ToUserCalled u m ord)
  with assms show ?thesis by (auto simp: sched_step_def enter_def)
next
  case ShutdownCalled
  with assms show ?thesis by (auto simp: sched_step_def)
next
  case (Advance i)
  with assms(1) have "advance marshal i s = Inr s'" by (simp add: sched_step_def)
  from advance_length[OF this] assms(2) show ?thesis by simp
qed

text \<open>A call that is not interrupted and finds the mutex free: its four statements leave
  the hub as the two halves of its body make it, and the mutex free again.\<close>

lemma uninterrupted_call:
  assumes "\<not> writer s" "readers s = 0" "i < length (calls s)" "phase (calls s ! i) = AtLock"
    and "call_first marshal (call (calls s ! i)) (hub s) = Inr h1"
  shows "\<exists>s'. run_events marshal [Advance i, Advance i, Advance i, Advance i] s = Inr s' \<and>
           hub s' = call_second (call (calls s ! i)) h1 \<and>
           \<not> writer s' \<and> readers s' = 0 \<and> phase (calls s' ! i) = Finished"
  using assms
  by (cases "exclusive (call (calls s ! i))")
     (simp_all add: sched_step_def advance_def set_phase_def)


text \<open>
  C3 (as amended).  Take any sequence of events from a hub on which no call is in
  progress, and the event that comes next.  If that event changes a table, it is a
  statement of the body of \<open>registerClient\<close> or \<open>cleanup\<close>, called by the command
  loop, or of \<open>unregisterClient\<close>, called by the command loop or by a goroutine that
  was started with \<open>go h.unregisterClient(client)\<close>; this call holds \<open>h.mu\<close> as the
  writer, and no other call is between its lock and its unlock.  While a call that took
  the read lock (\<open>broadcastMessage\<close>, \<open>BroadcastToUser\<close>) is between its lock and its
  unlock, no writer holds \<open>h.mu\<close> and no event changes a table: a broadcast sees no
  table between the two halves of a change.  A goroutine running \<open>unregisterClient\<close>
  outside the loop starts only for a client that is in the list of started
  \<open>go h.unregisterClient(client)\<close>, and that list grows only in the body of
  \<open>broadcastMessage\<close> or \<open>cleanupStaleConnections\<close>, called by the command loop.
\<close>

theorem C3_who_changes_tables:
  assumes "run_events marshal evs (boot h0) = Inr s"
    and "sched_step marshal ev s = Inr s'"
  shows "(clients (hub s') \<noteq> clients (hub s) \<or> conversations (hub s') \<noteq> conversations (hub s) \<longrightarrow>
      (\<exists>i. ev = Advance i \<and> i < length (calls s) \<and>
           (phase (calls s ! i) = FirstHalf \<or> phase (calls s ! i) = SecondHalf) \<and>
           writer s \<and> readers s = 0 \<and>
           (\<forall>j<length (calls s). j \<noteq> i \<longrightarrow> \<not> holding (calls s ! j)) \<and>
           ((\<exists>c. call (calls s ! i) = CallRegister c) \<and> who (calls s ! i) = CommandLoop \<or>
            (\<exists>ord. call (calls s ! i) = CallCleanup ord) \<and> who (calls s ! i) = CommandLoop \<or>
            (\<exists>c. call (calls s ! i) = CallUnregister c) \<and>
              (who (calls s ! i) = CommandLoop \<or> who (calls s ! i) = SpawnedGoroutine)))) \<and>
   (\<forall>i<length (calls s). holding (calls s ! i) \<and> \<not> exclusive (call (calls s ! i)) \<longrightarrow>
      \<not> writer s \<and>
      (\<forall>j<length (calls s). holding (calls s ! j) \<longrightarrow> \<not> exclusive (call (calls s ! j))) \<and>
      clients (hub s') = clients (hub s) \<and> conversations (hub s') = conversations (hub s)) \<and>
   (\<forall>g. calls s' = calls s @ [g] \<and> who g = SpawnedGoroutine \<longrightarrow>
      (\<exists>c. ev = GoStarts c \<and> c \<in> set (go_unregister (hub s)) \<and>
           call g = CallUnregister c \<and> phase g = AtLock \<and>
           go_unregister (hub s') = remove1 c (go_unregister (hub s)))) \<and>
   (length (go_unregister (hub s)) < length (go_unregister (hub s')) \<longrightarrow>
      (\<exists>i. ev = Advance i \<and> i < length (calls s) \<and> phase (calls s ! i) = FirstHalf \<and>
           who (calls s ! i) = CommandLoop \<and>
           ((\<exists>b ord. call (calls s ! i) = CallBroadcast b ord) \<or>
            (\<exists>now ord. call (calls s ! i) = CallSweep now ord))))"
proof -
  from run_events_inv[OF boot_inv assms(1)] have mu: "mu_inv s" and ro: "roles_inv s" by simp_all
  have role: "caller_ok (who (calls s ! i)) (call (calls s ! i))" if "i < length (calls s)" for i
    using ro that by (simp add: roles_inv_def list_all_length)
  have changes: "\<exists>i. ev = Advance i \<and> i < length (calls s) \<and>
           (phase (calls s ! i) = FirstHalf \<or> phase (calls s ! i) = SecondHalf) \<and>
           writer s \<and> readers s = 0 \<and>
           (\<forall>j<length (calls s). j \<noteq> i \<longrightarrow> \<not> holding (calls s ! j)) \<and>
           ((\<exists>c. call (calls s ! i) = CallRegister c) \<and> who (calls s ! i) = CommandLoop \<or>
            (\<exists>ord. call (calls s ! i) = CallCleanup ord) \<and> who (calls s ! i) = CommandLoop \<or>
            (\<exists>c. call (calls s ! i) = CallUnregister c) \<and>
              (who (calls s ! i) = CommandLoop \<or> who (calls s ! i) = SpawnedGoroutine))"
    if ch: "clients (hub s') \<noteq> clients (hub s) \<or> conversations (hub s') \<noteq> conversations (hub s)"
  proof -
    from sched_step_tables[OF assms(2) ch]
    obtain i where ev: "ev = Advance i" and i: "i < length (calls s)"
      and ph: "phase (calls s ! i) = FirstHalf \<or> phase (calls s ! i) = SecondHalf"
      and k: "(\<exists>c. call (calls s ! i) = CallRegister c) \<or> (\<exists>c. call (calls s ! i) = CallUnregister c) \<or>
            (\<exists>ord. call (calls s ! i) = CallCleanup ord)"
      by blast
    from ph have hold: "holding (calls s ! i)" by (auto simp: holding_def)
    from k have ex: "exclusive (call (calls s ! i))" by auto
    note w = writer_excludes[OF mu i hold ex]
    from k role[OF i]
    have "(\<exists>c. call (calls s ! i) = CallRegister c) \<and> who (calls s ! i) = CommandLoop \<or>
            (\<exists>ord. call (calls s ! i) = CallCleanup ord) \<and> who (calls s ! i) = CommandLoop \<or>
            (\<exists>c. call (calls s ! i) = CallUnregister c) \<and>
              (who (calls s ! i) = CommandLoop \<or> who (calls s ! i) = SpawnedGoroutine)"
      by auto
    with ev i ph w show ?thesis by blast
  qed
  have p1: "clients (hub s') \<noteq> clients (hub s) \<or> conversations (hub s') \<noteq> conversations (hub s) \<longrightarrow>
      (\<exists>i. ev = Advance i \<and> i < length (calls s) \<and>
           (phase (calls s ! i) = FirstHalf \<or> phase (calls s ! i) = SecondHalf) \<and>
           writer s \<and> readers s = 0 \<and>
           (\<forall>j<length (calls s). j \<noteq> i \<longrightarrow> \<not> holding (calls s ! j)) \<and>
           ((\<exists>c. call (calls s ! i) = CallRegister c) \<and> who (calls s ! i) = CommandLoop \<or>
            (\<exists>ord. call (calls s ! i) = CallCleanup ord) \<and> who (calls s ! i) = CommandLoop \<or>
            (\<exists>c. call (calls s ! i) = CallUnregister c) \<and>
              (who (calls s ! i) = CommandLoop \<or> who (calls s ! i) = SpawnedGoroutine)))"
    using changes by blast
  have p2: "\<forall>i<length (calls s). holding (calls s ! i) \<and> \<not> exclusive (call (calls s ! i)) \<longrightarrow>
      \<not> writer s \<and>
      (\<forall>j<length (calls s). holding (calls s ! j) \<longrightarrow> \<not> exclusive (call (calls s ! j))) \<and>
      clients (hub s') = clients (hub s) \<and> conversations (hub s') = conversations (hub s)"
  proof (intro allI impI)
    fix i assume i: "i < length (calls s)"
      and h: "holding (calls s ! i) \<and> \<not> exclusive (call (calls s ! i))"
    from reader_excludes[OF mu i] h
    have r: "\<not> writer s"
      "\<forall>j<length (calls s). holding (calls s ! j) \<longrightarrow> \<not> exclusive (call (calls s ! j))"
      by blast+
    have "clients (hub s') = clients (hub s) \<and> conversations (hub s') = conversations (hub s)"
    proof (rule ccontr)
      assume "\<not> ?thesis"
      then have "clients (hub s') \<noteq> clients (hub s) \<or> conversations (hub s') \<noteq> conversations (hub s)"
        by blast
      from changes[OF this] r(1) show False by blast
    qed
    with r show "\<not> writer s \<and>
      (\<forall>j<length (calls s). holding (calls s ! j) \<longrightarrow> \<not> exclusive (call (calls s ! j))) \<and>
      clients (hub s') = clients (hub s) \<and> conversations (hub s') = conversations (hub s)"
      by blast
  qed
  have p3: "\<forall>g. calls s' = calls s @ [g] \<and> who g = SpawnedGoroutine \<longrightarrow>
      (\<exists>c. ev = GoStarts c \<and> c \<in> set (go_unregister (hub s)) \<and>
           call g = CallUnregister c \<and> phase g = AtLock \<and>
           go_unregister (hub s') = remove1 c (go_unregister (hub s)))"
    using sched_step_spawn[OF assms(2)] by blast
  have p4: "length (go_unregister (hub s)) < length (go_unregister (hub s')) \<longrightarrow>
      (\<exists>i. ev = Advance i \<and> i < length (calls s) \<and> phase (calls s ! i) = FirstHalf \<and>
           who (calls s ! i) = CommandLoop \<and>
           ((\<exists>b ord. call (calls s ! i) = CallBroadcast b ord) \<or>
            (\<exists>now ord. call (calls s ! i) = CallSweep now ord)))"
  proof
    assume "length (go_unregister (hub s)) < length (go_unregister (hub s'))"
    from sched_step_go[OF assms(2) this]
    obtain i where ev: "ev = Advance i" and i: "i < length (calls s)"
      and ph: "phase (calls s ! i) = FirstHalf"
      and k: "(\<exists>b ord. call (calls s ! i) = CallBroadcast b ord) \<or>
            (\<exists>now ord. call (calls s ! i) = CallSweep now ord)"
      by blast
    from k role[OF i] have "who (calls s ! i) = CommandLoop" by auto
    with ev i ph k show "\<exists>i. ev = Advance i \<and> i < length (calls s) \<and> phase (calls s ! i) = FirstHalf \<and>
           who (calls s ! i) = CommandLoop \<and>
           ((\<exists>b ord. call (calls s ! i) = CallBroadcast b ord) \<or>
            (\<exists>now ord. call (calls s ! i) = CallSweep now ord))"
      by blast
  qed
  from p1 p2 p3 p4 show ?thesis by (intro conjI)
qed

lemma broadcast_room7_full:
  "broadcastMessage marshal_ex [conn_A, conn_B] hello7 room7_full
     = Inr ([JSONMarshal, LogChannelFull conn_A, GoUnregisterClient conn_A, Sent conn_B ''hi''],
            room7_dropped)"
  using conns_distinct
  by (simp add: broadcastMessage_def hello7_def room7_dropped_def
      room7_full_fields room7_tables chan_try_send_def full_chan_full make_chan_room)
     (simp add: room7_full_def room7_def registerClient_def Let_def NewHub_def fresh_def
      make_chan_def)

lemma room7_full_running: "\<not> hub_stopped room7_full"
  by (simp add: room7_full_def room7_wire)

theorem C3_who_changes_tables_witness:
  "\<exists>s s'. run_events marshal_ex
        [LoopReceives (BroadcastCmd hello7 [conn_A, conn_B]), Advance 0, Advance 0,
         GoStarts conn_A, Advance 1, Advance 0, Advance 0, Advance 1] (boot room7_full) = Inr s \<and>
      sched_step marshal_ex (Advance 1) s = Inr s' \<and>
      clients (hub s') \<noteq> clients (hub s) \<and>
      calls s = [\<lparr>who = CommandLoop, call = CallBroadcast hello7 [conn_A, conn_B], phase = Finished\<rparr>,
                 \<lparr>who = SpawnedGoroutine, call = CallUnregister conn_A, phase = FirstHalf\<rparr>] \<and>
      writer s \<and> readers s = 0"
proof -
  let ?b = "\<lparr>who = CommandLoop, call = CallBroadcast hello7 [conn_A, conn_B], phase = Finished\<rparr>"
  let ?u = "\<lparr>who = SpawnedGoroutine, call = CallUnregister conn_A :: ex_msg call, phase = FirstHalf\<rparr>"
  let ?s = "\<lparr>hub = room7_dropped\<lparr>go_unregister := []\<rparr>, writer = True, readers = 0,
             calls = [?b, ?u]\<rparr>"
  have r: "run_events marshal_ex
        [LoopReceives (BroadcastCmd hello7 [conn_A, conn_B]), Advance 0, Advance 0,
         GoStarts conn_A, Advance 1, Advance 0, Advance 0, Advance 1] (boot room7_full) = Inr ?s"
    by (simp add: sched_step_def advance_def enter_def set_phase_def boot_def loop_idle_def
        call_first_def call_second_def broadcast_room7_full room7_full_running
        room7_dropped_fields)
  let ?h1 = "room7_dropped\<lparr>go_unregister := [],
        send := (send (room7_dropped\<lparr>go_unregister := []\<rparr>))(conn_A := full_chan\<lparr>closed := True\<rparr>),
        clients := remove_member (userID conn_A) conn_A {conn_A}
                     (clients (room7_dropped\<lparr>go_unregister := []\<rparr>))\<rparr>"
  let ?s' = "set_phase 1 SecondHalf (?s\<lparr>hub := ?h1\<rparr>)"
  have uid: "userID conn_A = 1" by (simp add: conn_A_def)
  have cf: "call_first marshal_ex (CallUnregister conn_A) (room7_dropped\<lparr>go_unregister := []\<rparr>)
      = Inr ?h1"
    by (simp add: call_first_def room7_dropped_fields room7_tables uid chan_close_def full_chan_def)
  have st: "sched_step marshal_ex (Advance 1) ?s = Inr ?s'"
    by (simp add: sched_step_def advance_def cf)
  have a1: "clients (hub ?s') (userID conn_A) = None"
    by (simp add: set_phase_def remove_member_def)
  have a2: "clients (hub ?s) (userID conn_A) = Some {conn_A}"
    by (simp add: room7_dropped_fields room7_tables uid)
  have ne: "clients (hub ?s') \<noteq> clients (hub ?s)"
  proof
    assume "clients (hub ?s') = clients (hub ?s)"
    then have "clients (hub ?s') (userID conn_A) = clients (hub ?s) (userID conn_A)"
      by (rule fun_cong)
    then show False unfolding a1 a2 by simp
  qed
  from C3_who_changes_tables[OF r st] ne
  have w: "writer ?s \<and> readers ?s = 0" by blast
  have c: "calls ?s = [?b, ?u]" by simp
  from w have w1: "writer ?s" and w2: "readers ?s = 0" by blast+
  show ?thesis
    apply (rule exI[of _ ?s], rule exI[of _ ?s'])
    apply (intro conjI)
         apply (rule r)
        apply (rule st)
       apply (rule ne)
      apply (rule c)
     apply (rule w1)
    apply (rule w2)
    done
qed


end
